theory Spec2Isabelle
  imports Main "HOL-Library.Multiset"
begin

section \<open>Data model\<close>

text \<open>
  The bot is a class \<^verbatim>\<open>BotClient\<close> whose member functions read the latest snapshot
  \<^verbatim>\<open>state\<close> and the controlled player \<^verbatim>\<open>my_player\<close>. The sources hold two versions of
  it: the one with opponent prediction and aggression mode, embedded here, and
  \<^verbatim>\<open>client_sebastian_perilla.cpp\<close>, which has the same members except that its
  \<^verbatim>\<open>decideMove\<close> is \<^verbatim>\<open>findSafeDirection\<close> alone. The headers \<^verbatim>\<open>api.h\<close> and
  \<^verbatim>\<open>utils.h\<close> are not part of the sources, so the grid queries and the direction
  vocabulary are modelled from the specification (sections 3, 4.1 and 4.2); everything
  else follows the source text.

  C++ \<^verbatim>\<open>int\<close> has 32 bits. Coordinates and areas are values of \<^typ>\<open>int\<close>. A sum
  \<^verbatim>\<open>position + getDirectionVector(d)\<close> is only used after \<^verbatim>\<open>isInsideGrid\<close> accepted it,
  and a sum that wraps around leaves every grid whose width and height fit an \<^verbatim>\<open>int\<close>,
  as the unbounded sum does; the area never exceeds the number of cells. The distance
  and the score of aggression mode are different: they are computed from a target that
  may lie anywhere, so their arithmetic is written out with the two's complement
  wrap-around \<open>int32\<close> that the compiled subtraction, \<^verbatim>\<open>abs\<close> and addition perform.
\<close>

definition int32 :: "int \<Rightarrow> int" where
  "int32 v = (v + 2147483648) mod 4294967296 - 2147483648"

text \<open>\<^verbatim>\<open>sf::Vector2i\<close>: a pair \<open>(x, y)\<close> of integer coordinates.\<close>

type_synonym Cell = "int \<times> int"

text \<open>\<^verbatim>\<open>operator+\<close> on \<^verbatim>\<open>sf::Vector2i\<close>.\<close>

fun vadd :: "Cell \<Rightarrow> Cell \<Rightarrow> Cell" where
  "vadd (x1, y1) (x2, y2) = (x1 + x2, y1 + y2)"

datatype Direction = north | east | south | west

text \<open>
  Modelled from the spec: \<^verbatim>\<open>getDirectionVector\<close> of \<^verbatim>\<open>utils.h\<close> is missing. Section 4.2
  asks for one fixed unit delta per direction, and the scenarios of section 8 place
  \<open>(0, -1)\<close> north and \<open>(-1, 0)\<close> west of \<open>(0, 0)\<close>.
\<close>

fun getDirectionVector :: "Direction \<Rightarrow> Cell" where
  "getDirectionVector north = (0, -1)"
| "getDirectionVector east = (1, 0)"
| "getDirectionVector south = (0, 1)"
| "getDirectionVector west = (-1, 0)"

text \<open>The initializer list every loop over directions iterates.\<close>

definition directions :: "Direction list" where
  "directions = [north, east, south, west]"

record Player =
  name :: string
  position :: Cell

text \<open>
  Modelled from the spec: \<^verbatim>\<open>GameState\<close> of \<^verbatim>\<open>api.h\<close> is missing. Section 3 describes a
  rectangular occupancy field of \<open>gridWidth \<times> gridHeight\<close> markers (0 is empty) and the
  ordered collection of players.
\<close>

record GameState =
  gridWidth :: int
  gridHeight :: int
  grid :: "Cell \<Rightarrow> nat"
  players :: "Player list"

datatype error = OutOfBounds

text \<open>Modelled from the spec: \<^verbatim>\<open>isInsideGrid\<close> (section 4.1).\<close>

fun isInsideGrid :: "GameState \<Rightarrow> Cell \<Rightarrow> bool" where
  "isInsideGrid s (x, y) = (0 \<le> x \<and> x < gridWidth s \<and> 0 \<le> y \<and> y < gridHeight s)"

text \<open>
  Modelled from the spec: \<^verbatim>\<open>getGridCell\<close> (\<open>occupancyAt\<close> in section 4.1) is defined
  inside the bounds only; a lookup outside is the error the callers have to prevent.
\<close>

definition getGridCell :: "GameState \<Rightarrow> Cell \<Rightarrow> error + nat" where
  "getGridCell s c = (if isInsideGrid s c then Inr (grid s c) else Inl OutOfBounds)"

text \<open>
  The private members of \<^verbatim>\<open>BotClient\<close>. The connection is external; the generator
  \<^verbatim>\<open>rng\<close> is kept as an opaque number.
\<close>

record BotClient =
  name :: string
  state :: GameState
  my_player :: Player
  rng :: nat
  previousDirection :: int
  fallbackCounter :: int

section \<open>Territory estimator\<close>

text \<open>
  One iteration of the \<^verbatim>\<open>while\<close> loop of \<^verbatim>\<open>calculateAccessibleArea\<close> on the local
  variables \<open>(toVisit, visited, area)\<close>. The condition of the \<^verbatim>\<open>continue\<close> is evaluated
  left to right with short-circuit \<^verbatim>\<open>||\<close>. The loop guard excludes the empty queue.
\<close>

type_synonym fill_state = "Cell list \<times> Cell set \<times> int"

fun loop_body :: "GameState \<Rightarrow> fill_state \<Rightarrow> error + fill_state" where
  "loop_body s (current # rest, visited, area) =
     (if current \<in> visited then Inr (rest, visited, area)
      else if \<not> isInsideGrid s current then Inr (rest, visited, area)
      else case getGridCell s current of
             Inl e \<Rightarrow> Inl e
           | Inr v \<Rightarrow>
               if v \<noteq> 0 then Inr (rest, visited, area)
               else Inr (rest @ map (\<lambda>d. vadd current (getDirectionVector d)) directions,
                         insert current visited, area + 1))"
| "loop_body s ([], visited, area) = Inr ([], visited, area)"

text \<open>A cell is passable iff it lies inside the grid and its marker is 0.\<close>

definition passable :: "GameState \<Rightarrow> Cell \<Rightarrow> bool" where
  "passable s c = (isInsideGrid s c \<and> grid s c = 0)"

definition inside_cells :: "GameState \<Rightarrow> Cell set" where
  "inside_cells s = {0..<gridWidth s} \<times> {0..<gridHeight s}"

text \<open>The quantity that decreases along the loop: unvisited passable cells, then queue length.\<close>

definition unvisited :: "GameState \<Rightarrow> Cell set \<Rightarrow> nat" where
  "unvisited s visited = card ({c \<in> inside_cells s. grid s c = 0} - visited)"

definition loop_rel :: "GameState \<Rightarrow> (fill_state \<times> fill_state) set" where
  "loop_rel s = {(st', st). fst st \<noteq> [] \<and> loop_body s st = Inr st'}"

lemma isInsideGrid_iff: "isInsideGrid s c = (c \<in> inside_cells s)"
  by (cases c) (auto simp: inside_cells_def)

lemma finite_inside_cells: "finite (inside_cells s)"
  by (simp add: inside_cells_def)

lemma passable_iff: "passable s c = (c \<in> {c \<in> inside_cells s. grid s c = 0})"
  by (simp add: passable_def isInsideGrid_iff)

lemma unvisited_insert:
  assumes "passable s c" "c \<notin> visited"
  shows "unvisited s (insert c visited) < unvisited s visited"
proof -
  let ?P = "{c \<in> inside_cells s. grid s c = 0}"
  have fin: "finite (?P - visited)"
    using finite_inside_cells [of s] by simp
  have mem: "c \<in> ?P - visited"
    using assms by (simp add: passable_iff)
  have eq: "?P - insert c visited = (?P - visited) - {c}"
    by blast
  have "card ((?P - visited) - {c}) < card (?P - visited)"
    using fin mem by (rule card_Diff1_less)
  then show ?thesis
    unfolding unvisited_def eq .
qed

lemma loop_body_decreases:
  assumes "toVisit \<noteq> []" "loop_body s (toVisit, visited, area) = Inr (toVisit', visited', area')"
  shows "unvisited s visited' < unvisited s visited
         \<or> (unvisited s visited' = unvisited s visited \<and> length toVisit' < length toVisit)"
proof -
  obtain current rest where q: "toVisit = current # rest"
    using assms(1) by (cases toVisit) auto
  show ?thesis
  proof (cases "current \<in> visited \<or> \<not> passable s current")
    case True
    then have "loop_body s (toVisit, visited, area) = Inr (rest, visited, area)"
      by (auto simp: q getGridCell_def passable_def)
    with assms(2) show ?thesis by (simp add: q)
  next
    case False
    then have "loop_body s (toVisit, visited, area) =
        Inr (rest @ map (\<lambda>d. vadd current (getDirectionVector d)) directions,
             insert current visited, area + 1)"
      by (auto simp: q getGridCell_def passable_def)
    with assms(2) have "visited' = insert current visited" by simp
    with False show ?thesis by (simp add: unvisited_insert)
  qed
qed

function calc_loop :: "GameState \<Rightarrow> fill_state \<Rightarrow> error + fill_state" where
  "calc_loop s st =
     (if fst st = [] then Inr st
      else case loop_body s st of Inl e \<Rightarrow> Inl e | Inr st' \<Rightarrow> calc_loop s st')"
  by pat_completeness auto
termination
proof (relation "measures [\<lambda>(s, st). unvisited s (fst (snd st)), \<lambda>(s, st). length (fst st)]")
  show "wf (measures [\<lambda>(s, st). unvisited s (fst (snd st)), \<lambda>(s, st). length (fst st)])"
    by simp
next
  fix s :: GameState and st st' :: fill_state
  assume ne: "fst st \<noteq> []" and body: "loop_body s st = Inr st'"
  obtain q V a where st: "st = (q, V, a)" by (cases st) auto
  obtain q' V' a' where st': "st' = (q', V', a')" by (cases st') auto
  from loop_body_decreases [of q s V a q' V' a'] ne body
  show "((s, st'), (s, st))
        \<in> measures [\<lambda>(s, st). unvisited s (fst (snd st)), \<lambda>(s, st). length (fst st)]"
    by (auto simp: st st')
qed

declare calc_loop.simps [simp del]

text \<open>\<^verbatim>\<open>calculateAccessibleArea\<close>: seed the queue with \<open>start\<close>, run the loop, return \<open>area\<close>.\<close>

definition calculateAccessibleArea :: "BotClient \<Rightarrow> Cell \<Rightarrow> error + int" where
  "calculateAccessibleArea b start =
     (case calc_loop (state b) ([start], {}, 0) of
        Inl e \<Rightarrow> Inl e
      | Inr (toVisit, visited, area) \<Rightarrow> Inr area)"

section \<open>Move scoring and selection\<close>

type_synonym MoveCandidate = "Direction \<times> int"

text \<open>
  \<^verbatim>\<open>std::sort\<close> belongs to the C++ standard library, not to the repository. Every
  function that reaches \<^verbatim>\<open>findBestMove\<close> takes the sort as a parameter \<open>srt\<close>; the
  algorithm the library runs is \<open>std_sort\<close> below. The contract of the standard for the
  comparator \<^verbatim>\<open>a.second > b.second\<close>: the result is a permutation of the argument in
  which no later element compares before an earlier one.
\<close>

definition std_sort_contract :: "(MoveCandidate list \<Rightarrow> MoveCandidate list) \<Rightarrow> bool" where
  "std_sort_contract srt =
     (\<forall>moves. mset (srt moves) = mset moves
        \<and> sorted_wrt (\<lambda>a b. \<not> snd b > snd a) (srt moves))"

text \<open>
  The library's \<^verbatim>\<open>std::sort\<close> (libstdc++, \<^verbatim>\<open>bits/stl_algo.h\<close>) partitions a range only
  while it is longer than 16 elements and finishes with an insertion sort; a range of at
  most 16 elements is sorted by \<^verbatim>\<open>__insertion_sort\<close> alone. Each element \<open>val\<close> that
  compares before the first element of the sorted part is moved to the front; any other
  is moved by \<^verbatim>\<open>__unguarded_linear_insert\<close> towards the front past the elements it
  compares before. \<open>unguarded_linear_insert\<close> receives the sorted part in reverse, the
  neighbour of \<open>val\<close> first. The partitioning of longer ranges is the parameter
  \<open>long_range\<close>.
\<close>

fun unguarded_linear_insert :: "MoveCandidate \<Rightarrow> MoveCandidate list \<Rightarrow> MoveCandidate list" where
  "unguarded_linear_insert val [] = [val]"
| "unguarded_linear_insert val (next # before) =
     (if snd val > snd next then next # unguarded_linear_insert val before
      else val # next # before)"

definition insert_candidate :: "MoveCandidate \<Rightarrow> MoveCandidate list \<Rightarrow> MoveCandidate list" where
  "insert_candidate val sorted_part =
     (if snd val > snd (hd sorted_part) then val # sorted_part
      else rev (unguarded_linear_insert val (rev sorted_part)))"

definition insertion_sort :: "MoveCandidate list \<Rightarrow> MoveCandidate list" where
  "insertion_sort moves =
     (case moves of
        [] \<Rightarrow> []
      | first # rest \<Rightarrow> foldl (\<lambda>sorted_part val. insert_candidate val sorted_part) [first] rest)"

definition std_sort ::
  "(MoveCandidate list \<Rightarrow> MoveCandidate list) \<Rightarrow> MoveCandidate list \<Rightarrow> MoveCandidate list" where
  "std_sort long_range moves =
     (if length moves \<le> 16 then insertion_sort moves else long_range moves)"

text \<open>
  \<^verbatim>\<open>findBestMove\<close>. The vector is sorted in place, so \<^verbatim>\<open>moves.front()\<close> is the head of
  the sorted list, which is non-empty whenever \<open>moves\<close> is.
\<close>

definition findBestMove ::
  "(MoveCandidate list \<Rightarrow> MoveCandidate list) \<Rightarrow> MoveCandidate list \<Rightarrow> Direction" where
  "findBestMove srt moves = (if moves = [] then north else fst (hd (srt moves)))"

text \<open>\<^verbatim>\<open>is_valid_move\<close>: \<^verbatim>\<open>&&\<close> evaluates the lookup only after the bounds check.\<close>

definition is_valid_move :: "BotClient \<Rightarrow> Direction \<Rightarrow> error + bool" where
  "is_valid_move b direction =
     (let new_pos = vadd (position (my_player b)) (getDirectionVector direction)
      in if isInsideGrid (state b) new_pos
         then (case getGridCell (state b) new_pos of Inl e \<Rightarrow> Inl e | Inr v \<Rightarrow> Inr (v = 0))
         else Inr False)"

text \<open>The \<^verbatim>\<open>for\<close> loop of \<^verbatim>\<open>findSafeDirection\<close>, collecting \<open>moves\<close> in iteration order.\<close>

fun safe_moves :: "BotClient \<Rightarrow> Direction list \<Rightarrow> error + MoveCandidate list" where
  "safe_moves b [] = Inr []"
| "safe_moves b (dir # dirs) =
     (case is_valid_move b dir of
        Inl e \<Rightarrow> Inl e
      | Inr valid \<Rightarrow>
          if valid then
            (let new_pos = vadd (position (my_player b)) (getDirectionVector dir)
             in case calculateAccessibleArea b new_pos of
                  Inl e \<Rightarrow> Inl e
                | Inr accessibleArea \<Rightarrow>
                    (case safe_moves b dirs of
                       Inl e \<Rightarrow> Inl e
                     | Inr moves \<Rightarrow> Inr ((dir, accessibleArea) # moves)))
          else safe_moves b dirs)"

definition findSafeDirection ::
  "(MoveCandidate list \<Rightarrow> MoveCandidate list) \<Rightarrow> BotClient \<Rightarrow> error + Direction" where
  "findSafeDirection srt b =
     (case safe_moves b directions of
        Inl e \<Rightarrow> Inl e
      | Inr moves \<Rightarrow> Inr (findBestMove srt moves))"

text \<open>
  The \<^verbatim>\<open>for\<close> loop of \<^verbatim>\<open>decideAggressiveMove\<close>. The second parameter of the source,
  \<^verbatim>\<open>predictedHead\<close>, is never read.
\<close>

fun aggressive_moves :: "BotClient \<Rightarrow> Cell \<Rightarrow> Direction list \<Rightarrow> error + MoveCandidate list" where
  "aggressive_moves b target [] = Inr []"
| "aggressive_moves b target (dir # dirs) =
     (let new_pos = vadd (position (my_player b)) (getDirectionVector dir)
      in case is_valid_move b dir of
           Inl e \<Rightarrow> Inl e
         | Inr valid \<Rightarrow>
             if valid then
               (let distance = int32 (int32 \<bar>int32 (fst new_pos - fst target)\<bar>
                                        + int32 \<bar>int32 (snd new_pos - snd target)\<bar>)
                in case calculateAccessibleArea b new_pos of
                     Inl e \<Rightarrow> Inl e
                   | Inr area \<Rightarrow>
                       (let score = int32 (area - distance)
                        in case aggressive_moves b target dirs of
                             Inl e \<Rightarrow> Inl e
                           | Inr moves \<Rightarrow> Inr ((dir, score) # moves)))
             else aggressive_moves b target dirs)"

definition decideAggressiveMove ::
  "(MoveCandidate list \<Rightarrow> MoveCandidate list) \<Rightarrow> BotClient \<Rightarrow> Cell \<Rightarrow> Cell \<Rightarrow> error + Direction"
  where
  "decideAggressiveMove srt b target predictedHead =
     (case aggressive_moves b target directions of
        Inl e \<Rightarrow> Inl e
      | Inr moves \<Rightarrow> Inr (findBestMove srt moves))"

text \<open>
  The \<^verbatim>\<open>for\<close> loop of \<^verbatim>\<open>predictOpponentMove\<close> on the local variables
  \<open>(bestMove, maxArea)\<close>.
\<close>

fun predict_loop ::
  "BotClient \<Rightarrow> Cell \<Rightarrow> Direction list \<Rightarrow> Cell \<times> int \<Rightarrow> error + (Cell \<times> int)" where
  "predict_loop b opponentHead [] (bestMove, maxArea) = Inr (bestMove, maxArea)"
| "predict_loop b opponentHead (d # ds) (bestMove, maxArea) =
     (let candidateMove = vadd opponentHead (getDirectionVector d)
      in if isInsideGrid (state b) candidateMove then
           (case getGridCell (state b) candidateMove of
              Inl e \<Rightarrow> Inl e
            | Inr v \<Rightarrow>
                if v = 0 then
                  (case calculateAccessibleArea b candidateMove of
                     Inl e \<Rightarrow> Inl e
                   | Inr area \<Rightarrow>
                       if area > maxArea
                       then predict_loop b opponentHead ds (candidateMove, area)
                       else predict_loop b opponentHead ds (bestMove, maxArea))
                else predict_loop b opponentHead ds (bestMove, maxArea))
         else predict_loop b opponentHead ds (bestMove, maxArea))"

definition predictOpponentMove :: "BotClient \<Rightarrow> Cell \<Rightarrow> error + Cell" where
  "predictOpponentMove b opponentHead =
     (case predict_loop b opponentHead directions (opponentHead, 0) of
        Inl e \<Rightarrow> Inl e
      | Inr (bestMove, maxArea) \<Rightarrow> Inr bestMove)"

section \<open>Opponent locator\<close>

definition manhattan :: "Cell \<Rightarrow> Cell \<Rightarrow> int" where
  "manhattan p q = \<bar>fst p - fst q\<bar> + \<bar>snd p - snd q\<bar>"

text \<open>The nearest of \<open>best\<close> and the players after it; an earlier player wins a tie.\<close>

fun nearest_player :: "Cell \<Rightarrow> Player \<Rightarrow> Player list \<Rightarrow> Player" where
  "nearest_player me best [] = best"
| "nearest_player me best (p # ps) =
     (if manhattan (position p) me < manhattan (position best) me
      then nearest_player me p ps else nearest_player me best ps)"

text \<open>
  Modelled from the spec: \<^verbatim>\<open>findNearestOpponentHead\<close> is called by \<^verbatim>\<open>decideMove\<close> but
  defined nowhere in the sources. Section 4.4: it scans all players other than the
  controlled one (matched by name) and selects the one whose head minimises the Manhattan
  distance to the controlled player's head, the first encountered winning a tie; it
  reports that none was found when there is no other player. The caller receives a pair
  and tests its first component against \<open>(-1, -1)\<close>, which is therefore the head
  reported when none was found.
\<close>

definition findNearestOpponentHead :: "BotClient \<Rightarrow> Cell \<times> Player option" where
  "findNearestOpponentHead b =
     (case filter (\<lambda>p. Player.name p \<noteq> BotClient.name b) (players (state b)) of
        [] \<Rightarrow> ((-1, -1), None)
      | p # ps \<Rightarrow>
          (let nearestOpponent = nearest_player (position (my_player b)) p ps
           in (position nearestOpponent, Some nearestOpponent)))"

section \<open>Decision driver\<close>

definition decideMove ::
  "(MoveCandidate list \<Rightarrow> MoveCandidate list) \<Rightarrow> BotClient \<Rightarrow> error + Direction" where
  "decideMove srt b =
     (case findNearestOpponentHead b of
        (nearestHead, nearestOpponent) \<Rightarrow>
          if nearestHead = (-1, -1) then findSafeDirection srt b
          else (case predictOpponentMove b nearestHead of
                  Inl e \<Rightarrow> Inl e
                | Inr predictedMove \<Rightarrow> decideAggressiveMove srt b predictedMove nearestHead))"

text \<open>
  \<^verbatim>\<open>receiveGameState\<close>: \<open>snapshot\<close> is what the connection delivers. The loop stops at
  the first player whose name equals the bot's; without a match \<open>my_player\<close> is not
  assigned.
\<close>

definition receiveGameState :: "BotClient \<Rightarrow> GameState \<Rightarrow> BotClient" where
  "receiveGameState b snapshot =
     (case find (\<lambda>player. Player.name player = BotClient.name b) (players snapshot) of
        Some player \<Rightarrow> b\<lparr>state := snapshot, my_player := player\<rparr>
      | None \<Rightarrow> b\<lparr>state := snapshot\<rparr>)"

text \<open>
  \<^verbatim>\<open>sendMove\<close> returns the updated bot and the move handed to the connection. The codes
  of \<^verbatim>\<open>getDirectionValue\<close> (\<^verbatim>\<open>utils.h\<close>) are a parameter.
\<close>

definition sendMove ::
  "(MoveCandidate list \<Rightarrow> MoveCandidate list) \<Rightarrow> (Direction \<Rightarrow> int) \<Rightarrow> BotClient
   \<Rightarrow> error + (BotClient \<times> Direction)" where
  "sendMove srt getDirectionValue b =
     (case decideMove srt b of
        Inl e \<Rightarrow> Inl e
      | Inr move \<Rightarrow> Inr (b\<lparr>previousDirection := getDirectionValue move\<rparr>, move))"

text \<open>One pass through the body of the loop of \<^verbatim>\<open>run\<close>.\<close>

definition run_tick ::
  "(MoveCandidate list \<Rightarrow> MoveCandidate list) \<Rightarrow> (Direction \<Rightarrow> int) \<Rightarrow> BotClient
   \<Rightarrow> GameState \<Rightarrow> error + (BotClient \<times> Direction)" where
  "run_tick srt getDirectionValue b snapshot =
     sendMove srt getDirectionValue (receiveGameState b snapshot)"

section \<open>Reachability and closed forms\<close>

text \<open>The four cells pushed after \<open>c\<close> is counted, in iteration order.\<close>

definition neighbours :: "Cell \<Rightarrow> Cell list" where
  "neighbours c = map (\<lambda>d. vadd c (getDirectionVector d)) directions"

text \<open>One step to a passable 4-neighbour, and the cells reachable from \<open>start\<close> by such steps.\<close>

definition adjacent_passable :: "GameState \<Rightarrow> (Cell \<times> Cell) set" where
  "adjacent_passable s = {(a, b). b \<in> set (neighbours a) \<and> passable s b}"

definition reachable :: "GameState \<Rightarrow> Cell \<Rightarrow> Cell set" where
  "reachable s start = {c. passable s start \<and> (start, c) \<in> (adjacent_passable s)\<^sup>*}"

text \<open>The area the flood fill computes, and the cell a move leads to.\<close>

definition area_of :: "GameState \<Rightarrow> Cell \<Rightarrow> int" where
  "area_of s c = int (card (reachable s c))"

definition new_pos_of :: "BotClient \<Rightarrow> Direction \<Rightarrow> Cell" where
  "new_pos_of b d = vadd (position (my_player b)) (getDirectionVector d)"


text \<open>The invariant of the loop of \<^verbatim>\<open>calculateAccessibleArea\<close>.\<close>

definition fill_inv :: "GameState \<Rightarrow> Cell \<Rightarrow> fill_state \<Rightarrow> bool" where
  "fill_inv s start st = (case st of (toVisit, visited, area) \<Rightarrow>
     finite visited \<and> area = int (card visited) \<and> visited \<subseteq> reachable s start
     \<and> (\<forall>c \<in> set toVisit. passable s c \<longrightarrow> c \<in> reachable s start)
     \<and> (\<forall>v \<in> visited. \<forall>n \<in> set (neighbours v). passable s n \<longrightarrow> n \<in> visited \<or> n \<in> set toVisit)
     \<and> (passable s start \<longrightarrow> start \<in> visited \<or> start \<in> set toVisit))"

text \<open>The iteration at \<open>st\<close> expands \<open>c\<close>: it marks, counts and pushes the neighbours.\<close>

definition expands :: "GameState \<Rightarrow> fill_state \<Rightarrow> Cell \<Rightarrow> bool" where
  "expands s st c =
     (case st of (toVisit, visited, area) \<Rightarrow>
        toVisit \<noteq> [] \<and> hd toVisit = c \<and> c \<notin> visited \<and> passable s c)"

text \<open>The loop of the prediction as a fold over the passable neighbours.\<close>

fun keep_larger :: "GameState \<Rightarrow> Cell \<Rightarrow> Cell \<times> int \<Rightarrow> Cell \<times> int" where
  "keep_larger s c (bestMove, maxArea) =
     (if area_of s c > maxArea then (c, area_of s c) else (bestMove, maxArea))"

text \<open>
  The distance as \<^verbatim>\<open>decideAggressiveMove\<close> computes it in 32-bit arithmetic, and the
  candidates of aggression mode in closed form: the passable directions in iteration
  order, each with the 32-bit difference of its area and that distance.
\<close>

definition manhattan32 :: "Cell \<Rightarrow> Cell \<Rightarrow> int" where
  "manhattan32 p q = int32 (int32 \<bar>int32 (fst p - fst q)\<bar> + int32 \<bar>int32 (snd p - snd q)\<bar>)"

definition aggression_candidates :: "BotClient \<Rightarrow> Cell \<Rightarrow> MoveCandidate list" where
  "aggression_candidates b target =
     map (\<lambda>d. (d, int32 (area_of (state b) (new_pos_of b d) - manhattan32 (new_pos_of b d) target)))
       (filter (\<lambda>d. passable (state b) (new_pos_of b d)) directions)"

text \<open>
  The scores of the specification: the area minus the Manhattan distance, in the
  integers.
\<close>

definition exact_candidates :: "BotClient \<Rightarrow> Cell \<Rightarrow> MoveCandidate list" where
  "exact_candidates b target =
     map (\<lambda>d. (d, area_of (state b) (new_pos_of b d) - manhattan (new_pos_of b d) target))
       (filter (\<lambda>d. passable (state b) (new_pos_of b d)) directions)"

text \<open>
  No 32-bit overflow in aggression mode: for every passable candidate cell, the Manhattan
  distance to the target and the area are below \<open>2 ^ 31\<close>.
\<close>

definition fits_int32 :: "BotClient \<Rightarrow> Cell \<Rightarrow> bool" where
  "fits_int32 b target =
     (\<forall>d \<in> set directions. passable (state b) (new_pos_of b d) \<longrightarrow>
        manhattan (new_pos_of b d) target < 2147483648
        \<and> area_of (state b) (new_pos_of b d) < 2147483648)"

text \<open>
  The candidate \<open>best\<close> is the earliest candidate of maximum score in \<open>moves\<close>: every
  candidate before it scores strictly less, no candidate after it scores more.
\<close>

definition earliest_maximum :: "MoveCandidate \<Rightarrow> MoveCandidate list \<Rightarrow> bool" where
  "earliest_maximum best moves =
     (\<exists>earlier later. moves = earlier @ best # later
        \<and> (\<forall>m \<in> set earlier. snd m < snd best) \<and> (\<forall>m \<in> set later. snd m \<le> snd best))"

text \<open>
  Two sorts that meet the contract of \<^verbatim>\<open>std::sort\<close> on every list: the library
  function \<open>sort_key\<close> on the negated score, and the reverse of the ascending
  \<open>sort_key\<close>, which reverses every tie.
\<close>

definition stable_sort :: "MoveCandidate list \<Rightarrow> MoveCandidate list" where
  "stable_sort moves = sort_key (\<lambda>m. - snd m) moves"

definition reversing_sort :: "MoveCandidate list \<Rightarrow> MoveCandidate list" where
  "reversing_sort moves = rev (sort_key snd moves)"

text \<open>
  The identity of the bot is resolved: \<open>my_player\<close> is the first player of the current
  snapshot that carries the bot's name.
\<close>

definition resolved :: "BotClient \<Rightarrow> bool" where
  "resolved b =
     (find (\<lambda>player. Player.name player = BotClient.name b) (players (state b))
        = Some (my_player b))"

section \<open>A flood fill that filters at enqueue time\<close>

text \<open>
  The variant that sections 4.3 and 9 of the specification allow: a neighbour is tested for
  bounds, occupancy and prior visitation before it is pushed, and marked as visited at
  that moment; the start cell is tested and marked before the loop. It is written from
  the words of the specification, to be compared with \<^verbatim>\<open>calculateAccessibleArea\<close>.
\<close>

fun enqueue_step :: "GameState \<Rightarrow> Cell \<Rightarrow> Cell list \<times> Cell set \<Rightarrow> Cell list \<times> Cell set" where
  "enqueue_step s n (toVisit, visited) =
     (if isInsideGrid s n \<and> grid s n = 0 \<and> n \<notin> visited
      then (toVisit @ [n], insert n visited) else (toVisit, visited))"

fun enqueue_body :: "GameState \<Rightarrow> fill_state \<Rightarrow> fill_state" where
  "enqueue_body s (current # rest, visited, area) =
     (case fold (enqueue_step s) (neighbours current) (rest, visited) of
        (toVisit', visited') \<Rightarrow> (toVisit', visited', area + 1))"
| "enqueue_body s ([], visited, area) = ([], visited, area)"

text \<open>The neighbours that \<open>enqueue_step\<close> pushes, in order.\<close>

fun fresh :: "GameState \<Rightarrow> Cell list \<Rightarrow> Cell set \<Rightarrow> Cell list" where
  "fresh s [] visited = []"
| "fresh s (n # ns) visited =
     (if passable s n \<and> n \<notin> visited then n # fresh s ns (insert n visited)
      else fresh s ns visited)"

lemma fold_enqueue_step:
  "fold (enqueue_step s) ns (q, V) = (q @ fresh s ns V, V \<union> set (fresh s ns V))"
  by (induction ns arbitrary: q V) (auto simp: passable_def)

lemma fresh_unvisited: "set (fresh s ns V) \<inter> V = {}"
  by (induction ns arbitrary: V) auto

lemma fresh_subset: "set (fresh s ns V) \<subseteq> {n \<in> set ns. passable s n}"
  by (induction ns arbitrary: V) auto

lemma fresh_covers: "n \<in> set ns \<Longrightarrow> passable s n \<Longrightarrow> n \<in> V \<or> n \<in> set (fresh s ns V)"
  by (induction ns arbitrary: V) auto

lemma fresh_distinct: "distinct (fresh s ns V)"
proof (induction ns arbitrary: V)
  case Nil
  then show ?case by simp
next
  case (Cons n ns)
  show ?case using Cons.IH fresh_unvisited [of s ns "insert n V"] by auto
qed

lemma enqueue_body_eq:
  "enqueue_body s (current # rest, V, a) =
     (rest @ fresh s (neighbours current) V, V \<union> set (fresh s (neighbours current) V), a + 1)"
  by (simp add: fold_enqueue_step)

lemma unvisited_union:
  assumes "F \<noteq> {}" "F \<inter> V = {}" "F \<subseteq> {n. passable s n}"
  shows "unvisited s (V \<union> F) < unvisited s V"
proof -
  let ?P = "{c \<in> inside_cells s. grid s c = 0}"
  have "?P - (V \<union> F) \<subset> ?P - V"
    using assms by (auto simp: passable_iff)
  moreover have "finite (?P - V)"
    using finite_inside_cells [of s] by simp
  ultimately show ?thesis
    unfolding unvisited_def by (rule psubset_card_mono [rotated])
qed

lemma enqueue_body_decreases:
  assumes "fst st \<noteq> []"
  shows "(enqueue_body s st, st)
         \<in> measures [\<lambda>st. unvisited s (fst (snd st)), \<lambda>st. length (fst st)]"
proof -
  obtain q V a where st: "st = (q, V, a)" by (cases st) auto
  from assms obtain current rest where q: "q = current # rest"
    by (cases q) (auto simp: st)
  let ?F = "fresh s (neighbours current) V"
  show ?thesis
  proof (cases "?F = []")
    case True
    then show ?thesis by (simp add: st q fold_enqueue_step)
  next
    case False
    then have "unvisited s (V \<union> set ?F) < unvisited s V"
      using unvisited_union [of "set ?F" V s] fresh_unvisited [of s "neighbours current" V]
        fresh_subset [of s "neighbours current" V]
      by auto
    then show ?thesis by (simp add: st q fold_enqueue_step)
  qed
qed

function enqueue_loop :: "GameState \<Rightarrow> fill_state \<Rightarrow> fill_state" where
  "enqueue_loop s st = (if fst st = [] then st else enqueue_loop s (enqueue_body s st))"
  by pat_completeness auto
termination
proof (relation "inv_image (measures [\<lambda>st. unvisited (fst st) (fst (snd (snd st))), \<lambda>st. length (fst (snd st))]) (\<lambda>p. p)")
  show "wf (inv_image (measures [\<lambda>st. unvisited (fst st) (fst (snd (snd st))), \<lambda>st. length (fst (snd st))]) (\<lambda>p. p))"
    by simp
next
  fix s :: GameState and st :: fill_state
  assume "fst st \<noteq> []"
  from enqueue_body_decreases [OF this, of s]
  show "((s, enqueue_body s st), (s, st))
        \<in> inv_image (measures [\<lambda>st. unvisited (fst st) (fst (snd (snd st))), \<lambda>st. length (fst (snd st))]) (\<lambda>p. p)"
    by auto
qed

declare enqueue_loop.simps [simp del]

definition reachableArea_enqueue_filter :: "GameState \<Rightarrow> Cell \<Rightarrow> int" where
  "reachableArea_enqueue_filter s start =
     (if isInsideGrid s start \<and> grid s start = 0
      then snd (snd (enqueue_loop s ([start], {start}, 0)))
      else 0)"

text \<open>The invariant of the enqueue-filtering loop.\<close>

definition enqueue_inv :: "GameState \<Rightarrow> Cell \<Rightarrow> fill_state \<Rightarrow> bool" where
  "enqueue_inv s start st = (case st of (toVisit, visited, area) \<Rightarrow>
     finite visited \<and> distinct toVisit \<and> set toVisit \<subseteq> visited
     \<and> area = int (card (visited - set toVisit)) \<and> visited \<subseteq> reachable s start
     \<and> (\<forall>v \<in> visited - set toVisit. \<forall>n \<in> set (neighbours v). passable s n \<longrightarrow> n \<in> visited)
     \<and> start \<in> visited)"

section \<open>Example snapshots\<close>

text \<open>A grid without occupied cells, and a bot whose player record carries its name.\<close>

definition empty_grid :: "int \<Rightarrow> int \<Rightarrow> Player list \<Rightarrow> GameState" where
  "empty_grid w h ps = \<lparr>gridWidth = w, gridHeight = h, grid = (\<lambda>c. 0), players = ps\<rparr>"

definition bot_at :: "string \<Rightarrow> Cell \<Rightarrow> GameState \<Rightarrow> BotClient" where
  "bot_at n p s =
     \<lparr>name = n, state = s, my_player = \<lparr>Player.name = n, position = p\<rparr>, rng = 0,
      previousDirection = -1, fallbackCounter = 0\<rparr>"

text \<open>
  A snapshot whose occupied cells are the heads of its players, and a 3 by 3 duel: the
  bot in the corner \<open>(0, 0)\<close>, a rival in the corner \<open>(2, 2)\<close>.
\<close>

definition grid_with :: "int \<Rightarrow> int \<Rightarrow> Player list \<Rightarrow> GameState" where
  "grid_with w h ps =
     \<lparr>gridWidth = w, gridHeight = h,
      grid = (\<lambda>c. if c \<in> set (map position ps) then 1 else 0), players = ps\<rparr>"

definition duel :: GameState where
  "duel = grid_with 3 3 [\<lparr>Player.name = ''me'', position = (0, 0)\<rparr>,
                         \<lparr>Player.name = ''rival'', position = (2, 2)\<rparr>]"

text \<open>A later snapshot of the duel that lists the rival only, one cell further north.\<close>

definition rival_only :: GameState where
  "rival_only = grid_with 3 3 [\<lparr>Player.name = ''rival'', position = (2, 1)\<rparr>]"

text \<open>Two players with different names whose heads are reported on the same cell.\<close>

definition shared_cell :: GameState where
  "shared_cell = grid_with 3 3 [\<lparr>Player.name = ''me'', position = (1, 1)\<rparr>,
                                \<lparr>Player.name = ''rival'', position = (1, 1)\<rparr>]"

text \<open>
  A bot in the middle of an empty 3 by 3 grid, for a target whose distance does not fit
  32 bits.
\<close>

definition centre_bot :: BotClient where
  "centre_bot = bot_at ''me'' (1, 1) (empty_grid 3 3 [])"

text \<open>Three candidates, the last two tied at the maximum score.\<close>

definition tied_moves :: "MoveCandidate list" where
  "tied_moves = [(east, 4), (south, 7), (west, 7)]"

text \<open>
  One instance of the codes of \<^verbatim>\<open>getDirectionValue\<close>: the position in the iteration
  order.
\<close>

fun enum_code :: "Direction \<Rightarrow> int" where
  "enum_code north = 0"
| "enum_code east = 1"
| "enum_code south = 2"
| "enum_code west = 3"

section \<open>Correctness of the flood fill\<close>

lemma reachable_passable: "c \<in> reachable s start \<Longrightarrow> passable s c"
proof -
  assume "c \<in> reachable s start"
  then have p: "passable s start" and path: "(start, c) \<in> (adjacent_passable s)\<^sup>*"
    unfolding reachable_def by auto
  from path show ?thesis
    by (cases rule: rtranclE) (use p in \<open>auto simp: adjacent_passable_def\<close>)
qed

lemma reachable_step:
  "c \<in> reachable s start \<Longrightarrow> n \<in> set (neighbours c) \<Longrightarrow> passable s n \<Longrightarrow> n \<in> reachable s start"
  unfolding reachable_def
  by (auto simp: adjacent_passable_def intro: rtrancl_into_rtrancl)

lemma fill_inv_init: "fill_inv s start ([start], {}, 0)"
  by (auto simp: fill_inv_def reachable_def)

lemma loop_body_skip:
  "current \<in> visited \<or> \<not> passable s current \<Longrightarrow>
   loop_body s (current # rest, visited, area) = Inr (rest, visited, area)"
  by (auto simp: getGridCell_def passable_def)

lemma loop_body_expand:
  "current \<notin> visited \<Longrightarrow> passable s current \<Longrightarrow>
   loop_body s (current # rest, visited, area) =
     Inr (rest @ neighbours current, insert current visited, area + 1)"
  by (auto simp: getGridCell_def passable_def neighbours_def)

lemma fill_inv_step:
  assumes inv: "fill_inv s start (current # rest, visited, area)"
  shows "\<exists>st'. loop_body s (current # rest, visited, area) = Inr st' \<and> fill_inv s start st'"
proof (cases "current \<in> visited \<or> \<not> passable s current")
  case True
  have "fill_inv s start (rest, visited, area)"
    using inv True unfolding fill_inv_def by auto
  with loop_body_skip [OF True] show ?thesis by simp
next
  case False
  then have nv: "current \<notin> visited" and p: "passable s current" by auto
  have r: "current \<in> reachable s start"
    using inv p unfolding fill_inv_def by auto
  have "fill_inv s start (rest @ neighbours current, insert current visited, area + 1)"
    using inv nv p r reachable_step [OF r] unfolding fill_inv_def by auto
  with loop_body_expand [OF nv p] show ?thesis by simp
qed

lemma fill_inv_final:
  assumes inv: "fill_inv s start ([], visited, area)"
  shows "visited = reachable s start"
proof
  show "visited \<subseteq> reachable s start"
    using inv unfolding fill_inv_def by auto
next
  show "reachable s start \<subseteq> visited"
  proof
    fix c assume "c \<in> reachable s start"
    then have p: "passable s start" and path: "(start, c) \<in> (adjacent_passable s)\<^sup>*"
      unfolding reachable_def by auto
    from path show "c \<in> visited"
    proof (induction rule: rtrancl_induct)
      case base
      then show ?case using inv p unfolding fill_inv_def by auto
    next
      case (step y z)
      then show ?case using inv unfolding fill_inv_def adjacent_passable_def by auto
    qed
  qed
qed

lemma calc_loop_reachable:
  "fill_inv s start st \<Longrightarrow>
   calc_loop s st = Inr ([], reachable s start, int (card (reachable s start)))"
proof (induction s st rule: calc_loop.induct)
  case (1 s st)
  obtain q V a where st: "st = (q, V, a)" by (cases st) auto
  show ?case
  proof (cases q)
    case Nil
    have "calc_loop s st = Inr st"
      by (subst calc_loop.simps) (simp add: st Nil)
    moreover have "V = reachable s start"
      using "1.prems" fill_inv_final [of s start V a] by (simp add: st Nil)
    moreover have "a = int (card V)"
      using "1.prems" by (simp add: st fill_inv_def)
    ultimately show ?thesis by (simp add: st Nil)
  next
    case (Cons current rest)
    from "1.prems" fill_inv_step [of s start current rest V a]
    obtain st' where b: "loop_body s st = Inr st'" and i: "fill_inv s start st'"
      unfolding st Cons by blast
    have ne: "fst st \<noteq> []" by (simp add: st Cons)
    have "calc_loop s st = calc_loop s st'"
      by (subst calc_loop.simps) (simp add: ne b)
    also have "\<dots> = Inr ([], reachable s start, int (card (reachable s start)))"
      using ne b i by (rule "1.IH")
    finally show ?thesis .
  qed
qed

lemma calculateAccessibleArea_card:
  "calculateAccessibleArea b start = Inr (int (card (reachable (state b) start)))"
  by (simp add: calculateAccessibleArea_def calc_loop_reachable [OF fill_inv_init])


lemma card_inside_cells:
  "card (inside_cells s) = nat (gridWidth s) * nat (gridHeight s)"
  by (simp add: inside_cells_def)












section \<open>The operations in closed form\<close>

lemma calculateAccessibleArea_area_of:
  "calculateAccessibleArea b c = Inr (area_of (state b) c)"
  by (simp add: area_of_def calculateAccessibleArea_card)

lemma getGridCell_inside: "isInsideGrid s c \<Longrightarrow> getGridCell s c = Inr (grid s c)"
  by (simp add: getGridCell_def)

lemma is_valid_move_passable:
  "is_valid_move b d = Inr (passable (state b) (new_pos_of b d))"
  by (simp add: is_valid_move_def new_pos_of_def getGridCell_def passable_def Let_def)

lemma safe_moves_eq:
  "safe_moves b ds =
     Inr (map (\<lambda>d. (d, area_of (state b) (new_pos_of b d)))
            (filter (\<lambda>d. passable (state b) (new_pos_of b d)) ds))"
  by (induction ds)
     (simp_all add: is_valid_move_passable calculateAccessibleArea_area_of new_pos_of_def Let_def)

lemma aggressive_moves_eq:
  "aggressive_moves b target ds =
     Inr (map (\<lambda>d. (d, int32 (area_of (state b) (new_pos_of b d)
                                - manhattan32 (new_pos_of b d) target)))
            (filter (\<lambda>d. passable (state b) (new_pos_of b d)) ds))"
  by (induction ds)
     (simp_all add: is_valid_move_passable calculateAccessibleArea_area_of new_pos_of_def
        manhattan32_def Let_def)

lemma predict_loop_eq:
  "predict_loop b h ds acc =
     Inr (fold (keep_larger (state b))
            (filter (passable (state b)) (map (\<lambda>d. vadd h (getDirectionVector d)) ds)) acc)"
proof (induction ds arbitrary: acc)
  case Nil
  then show ?case by (cases acc) simp
next
  case (Cons d ds)
  obtain bestMove maxArea where acc: "acc = (bestMove, maxArea)" by (cases acc) auto
  show ?case
    unfolding acc
    by (simp add: Cons.IH getGridCell_def passable_def calculateAccessibleArea_area_of Let_def)
qed

lemma predictOpponentMove_eq:
  "predictOpponentMove b h =
     Inr (fst (fold (keep_larger (state b)) (filter (passable (state b)) (neighbours h)) (h, 0)))"
  by (simp add: predictOpponentMove_def predict_loop_eq neighbours_def split: prod.splits)

lemma loop_body_no_error: "\<exists>st'. loop_body s st = Inr st'"
proof -
  obtain q V a where st: "st = (q, V, a)" by (cases st) auto
  show ?thesis
    by (cases q) (auto simp: st getGridCell_def)
qed

lemma calc_loop_no_error: "\<exists>st'. calc_loop s st = Inr st'"
proof (induction s st rule: calc_loop.induct)
  case (1 s st)
  show ?case
  proof (cases "fst st = []")
    case True
    then have "calc_loop s st = Inr st" by (subst calc_loop.simps) simp
    then show ?thesis by blast
  next
    case False
    obtain st' where b: "loop_body s st = Inr st'"
      using loop_body_no_error by blast
    have "calc_loop s st = calc_loop s st'"
      by (subst calc_loop.simps) (simp add: False b)
    with "1.IH" [OF False b] show ?thesis by simp
  qed
qed

lemma queue_holds_outside_cells:
  "loop_body (empty_grid 1 1 []) ([(0, 0)], {}, 0) =
     Inr ([(0, -1), (1, 0), (0, 1), (-1, 0)], {(0, 0)}, 1)"
  by (simp add: empty_grid_def getGridCell_def directions_def)

text \<open>
  Claim C8. Move validation, the flood fill and the opponent prediction query the
  occupancy only on cells already checked to be inside the bounds: although the lookup
  fails on every cell outside the grid, and the queue of the flood fill may hold such
  cells, none of the operations ever returns the error of the lookup.
\<close>

theorem occupancy_lookup_inside_only:
  "(getGridCell s c = Inl OutOfBounds) = (\<not> isInsideGrid s c)
   \<and> (\<exists>valid. is_valid_move b d = Inr valid)
   \<and> (\<exists>st'. loop_body s st = Inr st')
   \<and> (\<exists>st'. calc_loop s st = Inr st')
   \<and> (\<exists>area. calculateAccessibleArea b start = Inr area)
   \<and> (\<exists>bestMove. predictOpponentMove b opponentHead = Inr bestMove)
   \<and> (\<exists>move. decideMove srt b = Inr move)"
proof (intro conjI)
  show "(getGridCell s c = Inl OutOfBounds) = (\<not> isInsideGrid s c)"
    by (simp add: getGridCell_def)
  show "\<exists>valid. is_valid_move b d = Inr valid"
    by (simp add: is_valid_move_passable)
  show "\<exists>st'. loop_body s st = Inr st'"
    by (rule loop_body_no_error)
  show "\<exists>st'. calc_loop s st = Inr st'"
    by (rule calc_loop_no_error)
  show "\<exists>area. calculateAccessibleArea b start = Inr area"
    by (simp add: calculateAccessibleArea_area_of)
  show "\<exists>bestMove. predictOpponentMove b opponentHead = Inr bestMove"
    by (simp add: predictOpponentMove_eq)
  show "\<exists>move. decideMove srt b = Inr move"
    by (simp add: decideMove_def findSafeDirection_def decideAggressiveMove_def safe_moves_eq
          aggressive_moves_eq predictOpponentMove_eq split: prod.splits)
qed

section \<open>Termination of the flood fill\<close>

lemma wf_loop_rel: "wf (loop_rel s)"
proof (rule wf_subset)
  let ?m = "\<lambda>st :: fill_state. (unvisited s (fst (snd st)), length (fst st))"
  show "wf (inv_image (less_than <*lex*> less_than) ?m)"
    by (intro wf_inv_image wf_lex_prod wf_less_than)
  show "loop_rel s \<subseteq> inv_image (less_than <*lex*> less_than) ?m"
  proof
    fix p assume p: "p \<in> loop_rel s"
    obtain q' V' a' q V a where pp: "p = ((q', V', a'), (q, V, a))"
      by (metis prod_cases3 surj_pair)
    from p loop_body_decreases [of q s V a q' V' a']
    show "p \<in> inv_image (less_than <*lex*> less_than) ?m"
      by (auto simp: pp loop_rel_def)
  qed
qed

lemma loop_rel_visited_mono:
  "(st', st) \<in> loop_rel s \<Longrightarrow> fst (snd st) \<subseteq> fst (snd st')"
proof -
  assume r: "(st', st) \<in> loop_rel s"
  obtain q V a where st: "st = (q, V, a)" by (cases st) auto
  from r obtain current rest where q: "q = current # rest"
    by (cases q) (auto simp: loop_rel_def st)
  from r show ?thesis
    by (auto simp: loop_rel_def st q getGridCell_def split: if_splits)
qed

lemma loop_rel_star_visited_mono:
  "(st'', st') \<in> (loop_rel s)\<^sup>* \<Longrightarrow> fst (snd st') \<subseteq> fst (snd st'')"
proof (induction rule: converse_rtrancl_induct)
  case base
  then show ?case by simp
next
  case (step y z)
  then show ?case using loop_rel_visited_mono [of y z s] by blast
qed

lemma expands_marks:
  assumes "expands s st c" "(st', st) \<in> loop_rel s"
  shows "c \<in> fst (snd st')"
proof -
  obtain q V a where st: "st = (q, V, a)" by (cases st) auto
  from assms(1) obtain rest where q: "q = c # rest"
    by (cases q) (auto simp: expands_def st)
  from assms have "loop_body s st = Inr (rest @ neighbours c, insert c V, a + 1)"
    using loop_body_expand [of c V s rest a] by (simp add: expands_def st q)
  with assms(2) show ?thesis by (simp add: loop_rel_def st)
qed

text \<open>
  Claim C6. For every grid and start cell the flood fill terminates: the iterations of
  the loop form a well-founded relation on all states of its local variables, whatever
  cells the queue holds, the run from the initial state returns with an empty queue, and
  a cell that an iteration has expanded is never expanded by a later iteration.
\<close>

theorem flood_fill_terminates:
  "wf (loop_rel s)
   \<and> (\<exists>visited area. calc_loop s ([start], {}, 0) = Inr ([], visited, area))
   \<and> (expands s st c \<and> (st', st) \<in> loop_rel s \<and> (st'', st') \<in> (loop_rel s)\<^sup>*
        \<longrightarrow> \<not> expands s st'' c)"
proof (intro conjI impI)
  show "wf (loop_rel s)" by (rule wf_loop_rel)
next
  show "\<exists>visited area. calc_loop s ([start], {}, 0) = Inr ([], visited, area)"
    using calc_loop_reachable [OF fill_inv_init, of s start] by blast
next
  assume h: "expands s st c \<and> (st', st) \<in> loop_rel s \<and> (st'', st') \<in> (loop_rel s)\<^sup>*"
  then have "c \<in> fst (snd st')" using expands_marks by blast
  with h have "c \<in> fst (snd st'')" using loop_rel_star_visited_mono by blast
  then show "\<not> expands s st'' c"
    by (cases st'') (auto simp: expands_def)
qed

theorem flood_fill_terminates_witness:
  "expands (empty_grid 2 1 []) ([(0, 0)], {}, 0) (0, 0)
   \<and> (([(0, -1), (1, 0), (0, 1), (-1, 0)], {(0, 0)}, 1), ([(0, 0)], {}, 0))
        \<in> loop_rel (empty_grid 2 1 [])
   \<and> (([(1, 0), (0, 1), (-1, 0)], {(0, 0)}, 1), ([(0, -1), (1, 0), (0, 1), (-1, 0)], {(0, 0)}, 1))
        \<in> (loop_rel (empty_grid 2 1 []))\<^sup>*
   \<and> \<not> expands (empty_grid 2 1 []) ([(1, 0), (0, 1), (-1, 0)], {(0, 0)}, 1) (0, 0)"
proof -
  let ?s = "empty_grid 2 1 []"
  let ?st = "([(0, 0)], {}, 0) :: fill_state"
  let ?st' = "([(0, -1), (1, 0), (0, 1), (-1, 0)], {(0, 0)}, 1) :: fill_state"
  let ?st'' = "([(1, 0), (0, 1), (-1, 0)], {(0, 0)}, 1) :: fill_state"
  have e: "expands ?s ?st (0, 0)"
    by (simp add: expands_def passable_def empty_grid_def)
  have r1: "(?st', ?st) \<in> loop_rel ?s"
    by (simp add: loop_rel_def empty_grid_def getGridCell_def directions_def)
  have "(?st'', ?st') \<in> loop_rel ?s"
    by (simp add: loop_rel_def empty_grid_def getGridCell_def directions_def)
  then have r2: "(?st'', ?st') \<in> (loop_rel ?s)\<^sup>*" by (rule r_into_rtrancl)
  from flood_fill_terminates [of ?s "(0, 0)" ?st "(0, 0)" ?st' ?st''] e r1 r2
  have "\<not> expands ?s ?st'' (0, 0)" by blast
  with e r1 r2 show ?thesis by blast
qed

section \<open>Filtering at enqueue time gives the same area\<close>

lemma enqueue_inv_init: "passable s start \<Longrightarrow> enqueue_inv s start ([start], {start}, 0)"
  by (simp add: enqueue_inv_def reachable_def)

lemma enqueue_inv_step:
  assumes inv: "enqueue_inv s start (current # rest, V, a)"
  shows "enqueue_inv s start (enqueue_body s (current # rest, V, a))"
proof -
  let ?F = "fresh s (neighbours current) V"
  have fin: "finite V" and d: "distinct (current # rest)" and sub: "set (current # rest) \<subseteq> V"
    and a: "a = int (card (V - set (current # rest)))" and reach: "V \<subseteq> reachable s start"
    and closed: "\<forall>v \<in> V - set (current # rest). \<forall>n \<in> set (neighbours v). passable s n \<longrightarrow> n \<in> V"
    and st: "start \<in> V"
    using inv unfolding enqueue_inv_def by auto
  have FV: "set ?F \<inter> V = {}" by (rule fresh_unvisited)
  have Fsub: "set ?F \<subseteq> {n \<in> set (neighbours current). passable s n}" by (rule fresh_subset)
  have cur: "current \<in> reachable s start" using sub reach by auto
  have 1: "finite (V \<union> set ?F)" using fin by simp
  have 2: "distinct (rest @ ?F)"
    using d sub FV fresh_distinct [of s "neighbours current" V] by auto
  have 3: "set (rest @ ?F) \<subseteq> V \<union> set ?F" using sub by auto
  have eq: "(V \<union> set ?F) - set (rest @ ?F) = insert current (V - set (current # rest))"
    using d sub FV by auto
  have "current \<notin> V - set (current # rest)" by simp
  moreover have "finite (V - set (current # rest))" using fin by simp
  ultimately have 4: "a + 1 = int (card ((V \<union> set ?F) - set (rest @ ?F)))"
    unfolding eq a by simp
  have 5: "V \<union> set ?F \<subseteq> reachable s start"
    using reach Fsub reachable_step [OF cur] by auto
  have 6: "\<forall>v \<in> (V \<union> set ?F) - set (rest @ ?F). \<forall>n \<in> set (neighbours v).
             passable s n \<longrightarrow> n \<in> V \<union> set ?F"
  proof (intro ballI impI)
    fix v n assume v: "v \<in> (V \<union> set ?F) - set (rest @ ?F)"
      and n: "n \<in> set (neighbours v)" and p: "passable s n"
    from v have "v = current \<or> v \<in> V - set (current # rest)" unfolding eq by simp
    then show "n \<in> V \<union> set ?F"
    proof
      assume "v = current"
      with n p fresh_covers [of n "neighbours current" s V] show ?thesis by auto
    next
      assume "v \<in> V - set (current # rest)"
      with closed n p show ?thesis by blast
    qed
  qed
  have 7: "start \<in> V \<union> set ?F" using st by simp
  show ?thesis
    unfolding enqueue_body_eq enqueue_inv_def prod.case using 1 2 3 4 5 6 7 by blast
qed

lemma enqueue_inv_final:
  assumes inv: "enqueue_inv s start ([], visited, area)"
  shows "visited = reachable s start"
proof
  show "visited \<subseteq> reachable s start"
    using inv unfolding enqueue_inv_def by auto
next
  show "reachable s start \<subseteq> visited"
  proof
    fix c assume "c \<in> reachable s start"
    then have path: "(start, c) \<in> (adjacent_passable s)\<^sup>*"
      unfolding reachable_def by auto
    from path show "c \<in> visited"
    proof (induction rule: rtrancl_induct)
      case base
      then show ?case using inv unfolding enqueue_inv_def by auto
    next
      case (step y z)
      then show ?case using inv unfolding enqueue_inv_def adjacent_passable_def by auto
    qed
  qed
qed

lemma enqueue_loop_reachable:
  "enqueue_inv s start st \<Longrightarrow>
   enqueue_loop s st = ([], reachable s start, int (card (reachable s start)))"
proof (induction s st rule: enqueue_loop.induct)
  case (1 s st)
  obtain q V a where st: "st = (q, V, a)" by (cases st) auto
  show ?case
  proof (cases q)
    case Nil
    have "enqueue_loop s st = st"
      by (subst enqueue_loop.simps) (simp add: st Nil)
    moreover have "V = reachable s start"
      using "1.prems" enqueue_inv_final [of s start V a] by (simp add: st Nil)
    moreover have "a = int (card V)"
      using "1.prems" by (simp add: st Nil enqueue_inv_def)
    ultimately show ?thesis by (simp add: st Nil)
  next
    case (Cons current rest)
    have ne: "fst st \<noteq> []" by (simp add: st Cons)
    have i: "enqueue_inv s start (enqueue_body s st)"
      using "1.prems" enqueue_inv_step [of s start current rest V a] by (simp only: st Cons)
    have "enqueue_loop s st = enqueue_loop s (enqueue_body s st)"
      by (subst enqueue_loop.simps) (simp add: ne)
    also have "\<dots> = ([], reachable s start, int (card (reachable s start)))"
      using ne i by (rule "1.IH")
    finally show ?thesis .
  qed
qed

lemma reachableArea_enqueue_filter_card:
  "reachableArea_enqueue_filter s start = int (card (reachable s start))"
proof (cases "isInsideGrid s start \<and> grid s start = 0")
  case True
  then have "passable s start" by (simp add: passable_def)
  then have "enqueue_loop s ([start], {start}, 0) =
      ([], reachable s start, int (card (reachable s start)))"
    by (intro enqueue_loop_reachable enqueue_inv_init)
  with True show ?thesis
    by (simp add: reachableArea_enqueue_filter_def)
next
  case False
  then have "reachable s start = {}" by (simp add: reachable_def passable_def)
  moreover have "reachableArea_enqueue_filter s start = 0"
    unfolding reachableArea_enqueue_filter_def using False by (simp only: if_False)
  ultimately show ?thesis by simp
qed

text \<open>
  Claim C7. For every grid and start cell, the flood fill that filters for bounds,
  occupancy and prior visitation at enqueue time returns the same area as
  \<^verbatim>\<open>calculateAccessibleArea\<close>, which pushes all four neighbours and filters at dequeue
  time.
\<close>

theorem enqueue_filter_same_area:
  "calculateAccessibleArea b start = Inr (reachableArea_enqueue_filter (state b) start)"
  by (simp add: calculateAccessibleArea_card reachableArea_enqueue_filter_card)

section \<open>Selection of the best move\<close>

lemma std_sort_contract_stable_sort: "std_sort_contract stable_sort"
proof -
  have "sorted_wrt (\<lambda>a b. \<not> snd b > snd a) (sort_key (\<lambda>m. - snd m) moves)"
    for moves :: "MoveCandidate list"
    using sorted_sort_key [of "\<lambda>m. - snd m" moves]
    by (simp add: sorted_wrt_map not_less)
  then show ?thesis
    by (simp add: std_sort_contract_def stable_sort_def)
qed

lemma std_sort_contract_reversing_sort: "std_sort_contract reversing_sort"
proof -
  have "sorted_wrt (\<lambda>a b. \<not> snd b > snd a) (rev (sort_key snd moves))"
    for moves :: "MoveCandidate list"
    using sorted_sort_key [of snd moves]
    by (simp add: sorted_wrt_rev sorted_wrt_map not_less)
  then show ?thesis
    by (simp add: std_sort_contract_def reversing_sort_def)
qed

lemma std_sort_head:
  assumes c: "std_sort_contract srt" and ne: "moves \<noteq> []"
  obtains h rest where "srt moves = h # rest" "h \<in> set moves" "\<forall>m \<in> set moves. snd m \<le> snd h"
proof -
  from c have m: "mset (srt moves) = mset moves"
    and s: "sorted_wrt (\<lambda>a b. \<not> snd b > snd a) (srt moves)"
    by (simp_all add: std_sort_contract_def)
  from m ne have "srt moves \<noteq> []" by auto
  then obtain h rest where hr: "srt moves = h # rest" by (cases "srt moves") auto
  from m have st: "set (srt moves) = set moves" by (rule mset_eq_setD)
  have "h \<in> set moves" using st hr by auto
  moreover have "\<forall>m \<in> set moves. snd m \<le> snd h"
    using s st hr by (auto simp: not_less)
  ultimately show ?thesis using hr that by blast
qed

lemma findBestMove_contract_maximum:
  assumes c: "std_sort_contract srt" and ne: "moves \<noteq> []"
  shows "\<exists>score. (findBestMove srt moves, score) \<in> set moves
           \<and> (\<forall>m \<in> set moves. snd m \<le> score)"
proof -
  from c ne obtain h rest where hr: "srt moves = h # rest" and hm: "h \<in> set moves"
    and mx: "\<forall>m \<in> set moves. snd m \<le> snd h"
    by (rule std_sort_head)
  have "(findBestMove srt moves, snd h) = h"
    using ne hr by (simp add: findBestMove_def)
  with hm mx show ?thesis by metis
qed

subsection \<open>The insertion sort of the library\<close>

lemma unguarded_linear_insert_nonempty: "unguarded_linear_insert val rp \<noteq> []"
  by (cases rp) auto

lemma unguarded_linear_insert_last:
  "rp \<noteq> [] \<Longrightarrow> \<not> snd val > snd (last rp) \<Longrightarrow>
   last (unguarded_linear_insert val rp) = last rp"
proof (induction rp)
  case Nil
  then show ?case by simp
next
  case (Cons n before)
  show ?case
  proof (cases "before = []")
    case True
    with Cons.prems show ?thesis by simp
  next
    case False
    with Cons show ?thesis
      by (simp add: unguarded_linear_insert_nonempty)
  qed
qed

lemma insert_candidate_nonempty: "insert_candidate val sorted_part \<noteq> []"
  by (simp add: insert_candidate_def unguarded_linear_insert_nonempty)

lemma insert_candidate_hd:
  assumes "sorted_part \<noteq> []"
  shows "hd (insert_candidate val sorted_part)
           = (if snd val > snd (hd sorted_part) then val else hd sorted_part)"
proof (cases "snd val > snd (hd sorted_part)")
  case True
  then show ?thesis by (simp add: insert_candidate_def)
next
  case False
  have r: "rev sorted_part \<noteq> []" using assms by simp
  have l: "last (rev sorted_part) = hd sorted_part" using assms by (simp add: last_rev)
  have "hd (rev (unguarded_linear_insert val (rev sorted_part)))
          = last (unguarded_linear_insert val (rev sorted_part))"
    by (simp add: hd_rev unguarded_linear_insert_nonempty)
  also have "\<dots> = last (rev sorted_part)"
    using r False l by (simp add: unguarded_linear_insert_last)
  finally show ?thesis using False l by (simp add: insert_candidate_def)
qed

lemma earliest_maximum_single: "earliest_maximum m [m]"
proof -
  have "[m] = [] @ m # [] \<and> (\<forall>x \<in> set []. snd x < snd m) \<and> (\<forall>x \<in> set []. snd x \<le> snd m)"
    by simp
  then show ?thesis unfolding earliest_maximum_def by blast
qed

lemma earliest_maximum_snoc:
  assumes "earliest_maximum h xs"
  shows "earliest_maximum (if snd v > snd h then v else h) (xs @ [v])"
proof -
  from assms obtain earlier later where dec: "xs = earlier @ h # later"
    and e: "\<forall>m \<in> set earlier. snd m < snd h" and l: "\<forall>m \<in> set later. snd m \<le> snd h"
    unfolding earliest_maximum_def by blast
  show ?thesis
  proof (cases "snd v > snd h")
    case True
    have "\<forall>m \<in> set xs. snd m < snd v"
    proof
      fix m assume "m \<in> set xs"
      then have "snd m \<le> snd h" using dec e l by auto
      with True show "snd m < snd v" by simp
    qed
    then have "xs @ [v] = xs @ v # [] \<and> (\<forall>m \<in> set xs. snd m < snd v)
                 \<and> (\<forall>m \<in> set []. snd m \<le> snd v)"
      by simp
    then have "earliest_maximum v (xs @ [v])"
      unfolding earliest_maximum_def by blast
    with True show ?thesis by simp
  next
    case False
    have "xs @ [v] = earlier @ h # (later @ [v])" by (simp add: dec)
    moreover have "\<forall>m \<in> set (later @ [v]). snd m \<le> snd h" using l False by auto
    ultimately have "earliest_maximum h (xs @ [v])"
      unfolding earliest_maximum_def using e by blast
    with False show ?thesis by simp
  qed
qed

lemma foldl_insert_candidate_hd:
  "sorted_part \<noteq> [] \<Longrightarrow> earliest_maximum (hd sorted_part) xs \<Longrightarrow>
   foldl (\<lambda>sorted_part val. insert_candidate val sorted_part) sorted_part rest \<noteq> []
   \<and> earliest_maximum
         (hd (foldl (\<lambda>sorted_part val. insert_candidate val sorted_part) sorted_part rest))
         (xs @ rest)"
proof (induction rest arbitrary: sorted_part xs)
  case Nil
  then show ?case by simp
next
  case (Cons v rest)
  have ne: "insert_candidate v sorted_part \<noteq> []" by (rule insert_candidate_nonempty)
  have "earliest_maximum (hd (insert_candidate v sorted_part)) (xs @ [v])"
    using earliest_maximum_snoc [OF Cons.prems(2), of v] Cons.prems(1)
    by (simp add: insert_candidate_hd)
  from Cons.IH [OF ne this] show ?case by simp
qed

lemma insertion_sort_hd:
  assumes "moves \<noteq> []"
  shows "insertion_sort moves \<noteq> [] \<and> earliest_maximum (hd (insertion_sort moves)) moves"
proof -
  from assms obtain first rest where m: "moves = first # rest" by (cases moves) auto
  have "[first] \<noteq> []" by simp
  moreover have "earliest_maximum (hd [first]) [first]" by (simp add: earliest_maximum_single)
  ultimately show ?thesis
    using foldl_insert_candidate_hd [of "[first]" "[first]" rest]
    by (simp add: m insertion_sort_def)
qed

lemma unguarded_linear_insert_mset:
  "mset (unguarded_linear_insert val rp) = add_mset val (mset rp)"
  by (induction rp) auto

lemma unguarded_linear_insert_sorted:
  "sorted_wrt (\<lambda>a b. snd a \<le> snd b) rp \<Longrightarrow>
   sorted_wrt (\<lambda>a b. snd a \<le> snd b) (unguarded_linear_insert val rp)"
proof (induction rp)
  case Nil
  then show ?case by simp
next
  case (Cons n before)
  have s: "set (unguarded_linear_insert val before) = insert val (set before)"
    using unguarded_linear_insert_mset [of val before] by (metis set_mset_add_mset_insert set_mset_mset)
  show ?case
  proof (cases "snd val > snd n")
    case True
    with Cons s show ?thesis by auto
  next
    case False
    with Cons.prems show ?thesis by fastforce
  qed
qed

lemma insert_candidate_mset:
  "mset (insert_candidate val sorted_part) = add_mset val (mset sorted_part)"
  by (simp add: insert_candidate_def unguarded_linear_insert_mset)

lemma insert_candidate_sorted:
  assumes "sorted_wrt (\<lambda>a b. \<not> snd b > snd a) sorted_part"
  shows "sorted_wrt (\<lambda>a b. \<not> snd b > snd a) (insert_candidate val sorted_part)"
proof (cases "snd val > snd (hd sorted_part)")
  case True
  have "\<forall>m \<in> set sorted_part. snd m \<le> snd (hd sorted_part)"
    using assms by (cases sorted_part) (auto simp: not_less)
  with True assms show ?thesis
    by (auto simp: insert_candidate_def not_less)
next
  case False
  have "sorted_wrt (\<lambda>a b. snd a \<le> snd b) (rev sorted_part)"
    using assms by (simp add: sorted_wrt_rev not_less)
  then have "sorted_wrt (\<lambda>a b. snd a \<le> snd b) (unguarded_linear_insert val (rev sorted_part))"
    by (rule unguarded_linear_insert_sorted)
  then have "sorted_wrt (\<lambda>a b. \<not> snd b > snd a)
               (rev (unguarded_linear_insert val (rev sorted_part)))"
    by (simp add: sorted_wrt_rev not_less)
  with False show ?thesis by (simp add: insert_candidate_def)
qed

lemma foldl_insert_candidate_sorted:
  "sorted_wrt (\<lambda>a b. \<not> snd b > snd a) sorted_part \<Longrightarrow>
   mset (foldl (\<lambda>sorted_part val. insert_candidate val sorted_part) sorted_part rest)
     = mset sorted_part + mset rest
   \<and> sorted_wrt (\<lambda>a b. \<not> snd b > snd a)
         (foldl (\<lambda>sorted_part val. insert_candidate val sorted_part) sorted_part rest)"
proof (induction rest arbitrary: sorted_part)
  case Nil
  then show ?case by simp
next
  case (Cons v rest)
  from Cons.IH [OF insert_candidate_sorted [OF Cons.prems, of v]]
  show ?case by (simp add: insert_candidate_mset)
qed

text \<open>The insertion sort meets the contract of \<^verbatim>\<open>std::sort\<close>.\<close>

lemma insertion_sort_contract:
  "mset (insertion_sort moves) = mset moves
   \<and> sorted_wrt (\<lambda>a b. \<not> snd b > snd a) (insertion_sort moves)"
proof (cases moves)
  case Nil
  then show ?thesis by (simp add: insertion_sort_def)
next
  case (Cons first rest)
  have "sorted_wrt (\<lambda>a b. \<not> snd b > snd a) [first]" by simp
  from foldl_insert_candidate_sorted [OF this, of rest] show ?thesis
    by (simp add: Cons insertion_sort_def)
qed

lemma candidates_at_most_four:
  "length (filter P directions) \<le> 4"
  using length_filter_le [of P directions] by (simp add: directions_def)

text \<open>
  Claim C1. For every non-empty candidate list that \<^verbatim>\<open>std::sort\<close> sorts by insertion, that
  is every list of at most 16 candidates, \<^verbatim>\<open>findBestMove\<close> returns the candidate with
  the maximum score, and among candidates of equal maximal score the one generated
  earlier: every candidate before the returned one scores strictly less, none after it
  scores more. The lists that \<^verbatim>\<open>findSafeDirection\<close> and \<^verbatim>\<open>decideAggressiveMove\<close> build hold
  at most four candidates.
\<close>

theorem findBestMove_earliest_maximum:
  "(moves \<noteq> [] \<and> length moves \<le> 16 \<longrightarrow>
      (\<exists>score. earliest_maximum (findBestMove (std_sort long_range) moves, score) moves))
   \<and> (\<exists>moves. safe_moves b directions = Inr moves \<and> length moves \<le> 4
          \<and> findSafeDirection srt b = Inr (findBestMove srt moves))
   \<and> (\<exists>moves. aggressive_moves b target directions = Inr moves \<and> length moves \<le> 4
          \<and> decideAggressiveMove srt b target predictedHead = Inr (findBestMove srt moves))"
proof (intro conjI impI)
  assume h: "moves \<noteq> [] \<and> length moves \<le> 16"
  then have s: "std_sort long_range moves = insertion_sort moves"
    by (simp add: std_sort_def)
  from h insertion_sort_hd [of moves]
  have ne: "insertion_sort moves \<noteq> []"
    and em: "earliest_maximum (hd (insertion_sort moves)) moves"
    by auto
  have "findBestMove (std_sort long_range) moves = fst (hd (insertion_sort moves))"
    using h by (simp add: findBestMove_def s)
  then have "(findBestMove (std_sort long_range) moves, snd (hd (insertion_sort moves)))
               = hd (insertion_sort moves)"
    by simp
  with em show "\<exists>score. earliest_maximum (findBestMove (std_sort long_range) moves, score) moves"
    by metis
next
  show "\<exists>moves. safe_moves b directions = Inr moves \<and> length moves \<le> 4
          \<and> findSafeDirection srt b = Inr (findBestMove srt moves)"
    by (simp add: findSafeDirection_def safe_moves_eq candidates_at_most_four)
next
  show "\<exists>moves. aggressive_moves b target directions = Inr moves \<and> length moves \<le> 4
          \<and> decideAggressiveMove srt b target predictedHead = Inr (findBestMove srt moves)"
    by (simp add: decideAggressiveMove_def aggressive_moves_eq candidates_at_most_four)
qed

theorem findBestMove_earliest_maximum_witness:
  "tied_moves \<noteq> [] \<and> length tied_moves \<le> 16
   \<and> std_sort reversing_sort tied_moves = [(south, 7), (west, 7), (east, 4)]
   \<and> findBestMove (std_sort reversing_sort) tied_moves = south
   \<and> (\<exists>score. earliest_maximum (south, score) tied_moves)"
proof -
  have h: "tied_moves \<noteq> [] \<and> length tied_moves \<le> 16"
    by (simp add: tied_moves_def)
  have s: "std_sort reversing_sort tied_moves = [(south, 7), (west, 7), (east, 4)]"
    by (simp add: std_sort_def insertion_sort_def insert_candidate_def tied_moves_def)
  have ev: "findBestMove (std_sort reversing_sort) tied_moves = south"
    using h by (simp add: findBestMove_def s)
  from findBestMove_earliest_maximum [of tied_moves reversing_sort _ _ _ _] h
  have "\<exists>score. earliest_maximum (findBestMove (std_sort reversing_sort) tied_moves, score) tied_moves"
    by blast
  then have "\<exists>score. earliest_maximum (south, score) tied_moves"
    by (simp only: ev)
  with h s ev show ?thesis by blast
qed

text \<open>
  Claim C9. On the empty candidate list \<^verbatim>\<open>findBestMove\<close> returns north; a
  player without any passable candidate move makes \<^verbatim>\<open>decideMove\<close> return north, in
  either scoring mode, and not an error.
\<close>

theorem findBestMove_empty_north:
  "findBestMove srt [] = north
   \<and> ((\<forall>d \<in> set directions. \<not> passable (state b) (new_pos_of b d))
        \<longrightarrow> decideMove srt b = Inr north)"
proof (intro conjI impI)
  show "findBestMove srt [] = north" by (simp add: findBestMove_def)
next
  assume "\<forall>d \<in> set directions. \<not> passable (state b) (new_pos_of b d)"
  then have "filter (\<lambda>d. passable (state b) (new_pos_of b d)) directions = []"
    by (simp add: filter_empty_conv)
  then show "decideMove srt b = Inr north"
    by (simp add: decideMove_def findSafeDirection_def decideAggressiveMove_def safe_moves_eq
          aggressive_moves_eq predictOpponentMove_eq findBestMove_def split: prod.splits)
qed

theorem findBestMove_empty_north_witness:
  "filter (\<lambda>d. passable (state (bot_at ''me'' (0, 0) (empty_grid 1 1 [])))
                   (new_pos_of (bot_at ''me'' (0, 0) (empty_grid 1 1 [])) d)) directions = []
   \<and> decideMove stable_sort (bot_at ''me'' (0, 0) (empty_grid 1 1 [])) = Inr north"
proof -
  let ?b = "bot_at ''me'' (0, 0) (empty_grid 1 1 [])"
  have none: "filter (\<lambda>d. passable (state ?b) (new_pos_of ?b d)) directions = []"
    by (simp add: directions_def passable_def new_pos_of_def bot_at_def empty_grid_def)
  then have h: "\<forall>d \<in> set directions. \<not> passable (state ?b) (new_pos_of ?b d)"
    by (simp add: filter_empty_conv)
  from findBestMove_empty_north [of stable_sort ?b] h
  have "decideMove stable_sort ?b = Inr north" by blast
  with none show ?thesis by blast
qed

section \<open>Aggression mode and opponent prediction\<close>

lemma finite_reachable: "finite (reachable s start)"
proof (rule finite_subset)
  show "reachable s start \<subseteq> inside_cells s"
    using reachable_passable [of _ s start] by (auto simp: passable_iff)
  show "finite (inside_cells s)" by (rule finite_inside_cells)
qed

lemma area_of_passable_pos: "passable s c \<Longrightarrow> 0 < area_of s c"
proof -
  assume "passable s c"
  then have "c \<in> reachable s c" by (simp add: reachable_def)
  then have "reachable s c \<noteq> {}" by blast
  with finite_reachable [of s c] show ?thesis
    by (simp add: area_of_def card_gt_0_iff)
qed

lemma int32_id: "- 2147483648 \<le> v \<Longrightarrow> v < 2147483648 \<Longrightarrow> int32 v = v"
  by (simp add: int32_def)

lemma manhattan32_exact:
  assumes "manhattan p q < 2147483648"
  shows "manhattan32 p q = manhattan p q"
proof -
  let ?dx = "fst p - fst q" and ?dy = "snd p - snd q"
  from assms have sum: "\<bar>?dx\<bar> + \<bar>?dy\<bar> < 2147483648" by (simp add: manhattan_def)
  then have x: "\<bar>?dx\<bar> < 2147483648" and y: "\<bar>?dy\<bar> < 2147483648" by linarith+
  have dx: "int32 ?dx = ?dx" using x by (intro int32_id) linarith+
  have dy: "int32 ?dy = ?dy" using y by (intro int32_id) linarith+
  have ax: "int32 \<bar>?dx\<bar> = \<bar>?dx\<bar>" using x by (intro int32_id) linarith+
  have ay: "int32 \<bar>?dy\<bar> = \<bar>?dy\<bar>" using y by (intro int32_id) linarith+
  have "int32 (\<bar>?dx\<bar> + \<bar>?dy\<bar>) = \<bar>?dx\<bar> + \<bar>?dy\<bar>"
    using sum by (intro int32_id) linarith+
  then show ?thesis
    by (simp only: manhattan32_def manhattan_def dx dy ax ay)
qed

lemma manhattan_nonneg: "0 \<le> manhattan p q"
  by (simp add: manhattan_def)

lemma score_exact:
  assumes "manhattan p q < 2147483648" "area_of s p < 2147483648"
  shows "int32 (area_of s p - manhattan32 p q) = area_of s p - manhattan p q"
proof -
  have "0 \<le> area_of s p" by (simp add: area_of_def)
  with assms manhattan_nonneg [of p q] show ?thesis
    by (simp add: manhattan32_exact int32_id)
qed

lemma aggression_candidates_exact:
  assumes "fits_int32 b target"
  shows "aggression_candidates b target = exact_candidates b target"
  unfolding aggression_candidates_def exact_candidates_def
proof (rule map_cong [OF refl])
  fix d assume "d \<in> set (filter (\<lambda>d. passable (state b) (new_pos_of b d)) directions)"
  then have "d \<in> set directions" "passable (state b) (new_pos_of b d)" by auto
  with assms have "manhattan (new_pos_of b d) target < 2147483648"
    "area_of (state b) (new_pos_of b d) < 2147483648"
    unfolding fits_int32_def by blast+
  then show "(d, int32 (area_of (state b) (new_pos_of b d) - manhattan32 (new_pos_of b d) target))
             = (d, area_of (state b) (new_pos_of b d) - manhattan (new_pos_of b d) target)"
    by (simp add: score_exact)
qed

lemma area_of_le_cells:
  "area_of s c \<le> int (nat (gridWidth s) * nat (gridHeight s))"
proof -
  have "reachable s c \<subseteq> inside_cells s"
    using reachable_passable [of _ s c] by (auto simp: passable_iff)
  then have "card (reachable s c) \<le> card (inside_cells s)"
    using finite_inside_cells by (rule card_mono [rotated])
  then have "int (card (reachable s c)) \<le> int (card (inside_cells s))"
    by (simp only: of_nat_le_iff)
  then show ?thesis by (simp only: area_of_def card_inside_cells)
qed

text \<open>
  A range of coordinates without overflow: a grid of at most \<open>2 ^ 15\<close> columns and rows
  and a target whose coordinates are at most \<open>2 ^ 29\<close> in absolute value.
\<close>

lemma fits_int32_coordinates:
  assumes w: "gridWidth (state b) \<le> 32768" and h: "gridHeight (state b) \<le> 32768"
    and tx: "\<bar>fst target\<bar> \<le> 536870912" and ty: "\<bar>snd target\<bar> \<le> 536870912"
  shows "fits_int32 b target"
  unfolding fits_int32_def
proof (intro ballI impI conjI)
  fix d assume p: "passable (state b) (new_pos_of b d)"
  obtain x y where c: "new_pos_of b d = (x, y)" by (cases "new_pos_of b d") auto
  from p have x: "0 \<le> x" "x < gridWidth (state b)" and y: "0 \<le> y" "y < gridHeight (state b)"
    by (simp_all add: passable_def c)
  show "manhattan (new_pos_of b d) target < 2147483648"
    using x y w h tx ty by (simp add: manhattan_def c)
  have "nat (gridWidth (state b)) * nat (gridHeight (state b)) \<le> 32768 * 32768"
    using w h by (intro mult_mono) auto
  then have "nat (gridWidth (state b)) * nat (gridHeight (state b)) \<le> 1073741824"
    by simp
  then have "int (nat (gridWidth (state b)) * nat (gridHeight (state b))) \<le> int 1073741824"
    by (simp only: of_nat_le_iff)
  then have "int (nat (gridWidth (state b)) * nat (gridHeight (state b))) \<le> 1073741824"
    by (simp only: of_nat_numeral)
  with area_of_le_cells [of "state b" "new_pos_of b d"]
  show "area_of (state b) (new_pos_of b d) < 2147483648" by linarith
qed

text \<open>
  Claim C3. In aggression mode the candidates are exactly the directions whose resulting
  cell is passable, in iteration order; \<^verbatim>\<open>decideMove\<close> passes the predicted cell of the
  nearest opponent as the target. The score of each candidate is the 32-bit difference of
  the area that \<^verbatim>\<open>calculateAccessibleArea\<close> returns for the resulting cell and the 32-bit
  Manhattan distance from that cell to the target. Whenever the distance and the area of
  every candidate fit 32 bits, the score is the area minus the Manhattan distance, in
  plain integer arithmetic without weights.
\<close>

theorem aggression_score:
  "aggressive_moves b target directions = Inr (aggression_candidates b target)
   \<and> (\<forall>c. calculateAccessibleArea b c = Inr (area_of (state b) c))
   \<and> decideAggressiveMove srt b target predictedHead
       = Inr (findBestMove srt (aggression_candidates b target))
   \<and> (fits_int32 b target \<longrightarrow>
        aggressive_moves b target directions = Inr (exact_candidates b target)
        \<and> decideAggressiveMove srt b target predictedHead
            = Inr (findBestMove srt (exact_candidates b target)))
   \<and> (fst (findNearestOpponentHead b) \<noteq> (-1, -1) \<longrightarrow>
        (\<exists>predictedMove.
           predictOpponentMove b (fst (findNearestOpponentHead b)) = Inr predictedMove
           \<and> decideMove srt b = Inr (findBestMove srt (aggression_candidates b predictedMove))
           \<and> (fits_int32 b predictedMove \<longrightarrow>
                decideMove srt b = Inr (findBestMove srt (exact_candidates b predictedMove)))))"
proof (intro conjI impI allI)
  show a: "aggressive_moves b target directions = Inr (aggression_candidates b target)"
    by (simp add: aggressive_moves_eq aggression_candidates_def)
  show d: "decideAggressiveMove srt b target predictedHead
       = Inr (findBestMove srt (aggression_candidates b target))"
    by (simp add: decideAggressiveMove_def aggressive_moves_eq aggression_candidates_def)
  show "calculateAccessibleArea b c = Inr (area_of (state b) c)" for c
    by (rule calculateAccessibleArea_area_of)
  show "aggressive_moves b target directions = Inr (exact_candidates b target)"
    if "fits_int32 b target"
    using a that by (simp add: aggression_candidates_exact)
  show "decideAggressiveMove srt b target predictedHead
            = Inr (findBestMove srt (exact_candidates b target))"
    if "fits_int32 b target"
    using d that by (simp add: aggression_candidates_exact)
next
  assume h: "fst (findNearestOpponentHead b) \<noteq> (-1, -1)"
  obtain nearestHead nearestOpponent
    where fn: "findNearestOpponentHead b = (nearestHead, nearestOpponent)"
    by (cases "findNearestOpponentHead b") auto
  from h have nh: "nearestHead \<noteq> (-1, -1)" by (simp add: fn)
  obtain predictedMove where p: "predictOpponentMove b nearestHead = Inr predictedMove"
    by (simp add: predictOpponentMove_eq)
  have "decideMove srt b = decideAggressiveMove srt b predictedMove nearestHead"
    using nh by (simp add: decideMove_def fn p)
  also have "\<dots> = Inr (findBestMove srt (aggression_candidates b predictedMove))"
    by (simp add: decideAggressiveMove_def aggressive_moves_eq aggression_candidates_def)
  finally have dm: "decideMove srt b
                      = Inr (findBestMove srt (aggression_candidates b predictedMove))" .
  have "fits_int32 b predictedMove \<longrightarrow>
          decideMove srt b = Inr (findBestMove srt (exact_candidates b predictedMove))"
    using dm by (simp add: aggression_candidates_exact)
  with dm p show "\<exists>predictedMove.
           predictOpponentMove b (fst (findNearestOpponentHead b)) = Inr predictedMove
           \<and> decideMove srt b = Inr (findBestMove srt (aggression_candidates b predictedMove))
           \<and> (fits_int32 b predictedMove \<longrightarrow>
                decideMove srt b = Inr (findBestMove srt (exact_candidates b predictedMove)))"
    by (simp add: fn)
qed

lemma duel_eval1: "findNearestOpponentHead (bot_at ''me'' (0, 0) duel) = ((2, 2), Some \<lparr>Player.name = ''rival'', position = (2, 2)\<rparr>)"
  by (simp add: findNearestOpponentHead_def bot_at_def duel_def grid_with_def)

lemma duel_eval2: "predictOpponentMove (bot_at ''me'' (0, 0) duel) (2, 2) = Inr (2, 1)"
  by code_simp

lemma duel_eval3: "aggressive_moves (bot_at ''me'' (0, 0) duel) (2, 1) directions = Inr [(east, 5), (south, 5)]"
  by code_simp

lemma duel_eval4: "decideMove stable_sort (bot_at ''me'' (0, 0) duel) = Inr east"
  by code_simp

lemma fold_keep_larger:
  "fold (keep_larger s) cs (b0, m0) = (r, m) \<Longrightarrow>
     ((\<forall>c \<in> set cs. area_of s c \<le> m0) \<and> (r, m) = (b0, m0))
   \<or> (m0 < m \<and> m = area_of s r
       \<and> (\<exists>earlier later. cs = earlier @ r # later
             \<and> (\<forall>c \<in> set earlier. area_of s c < m) \<and> (\<forall>c \<in> set later. area_of s c \<le> m)))"
proof (induction cs arbitrary: b0 m0)
  case Nil
  then show ?case by simp
next
  case (Cons c cs)
  show ?case
  proof (cases "area_of s c > m0")
    case True
    with Cons.prems have f: "fold (keep_larger s) cs (c, area_of s c) = (r, m)" by simp
    from Cons.IH [OF f] show ?thesis
    proof
      assume "(\<forall>c' \<in> set cs. area_of s c' \<le> area_of s c) \<and> (r, m) = (c, area_of s c)"
      then have r: "r = c" and m: "m = area_of s r" and l: "\<forall>c' \<in> set cs. area_of s c' \<le> m"
        by auto
      have "c # cs = [] @ r # cs \<and> (\<forall>c' \<in> set []. area_of s c' < m)
              \<and> (\<forall>c' \<in> set cs. area_of s c' \<le> m)"
        using r l by simp
      then have "\<exists>earlier later. c # cs = earlier @ r # later
             \<and> (\<forall>c \<in> set earlier. area_of s c < m) \<and> (\<forall>c \<in> set later. area_of s c \<le> m)"
        by blast
      moreover have "m0 < m" using True r m by simp
      ultimately show ?thesis using m by blast
    next
      assume "area_of s c < m \<and> m = area_of s r
       \<and> (\<exists>earlier later. cs = earlier @ r # later
             \<and> (\<forall>c \<in> set earlier. area_of s c < m) \<and> (\<forall>c \<in> set later. area_of s c \<le> m))"
      then obtain earlier later where lt: "area_of s c < m" and m: "m = area_of s r"
        and dec: "cs = earlier @ r # later"
        and e: "\<forall>c \<in> set earlier. area_of s c < m" and l: "\<forall>c \<in> set later. area_of s c \<le> m"
        by blast
      have "c # cs = (c # earlier) @ r # later" by (simp add: dec)
      moreover have "\<forall>c' \<in> set (c # earlier). area_of s c' < m" using lt e by simp
      moreover have "m0 < m" using True lt by simp
      ultimately show ?thesis using m l by blast
    qed
  next
    case False
    with Cons.prems have f: "fold (keep_larger s) cs (b0, m0) = (r, m)" by simp
    from Cons.IH [OF f] show ?thesis
    proof
      assume "(\<forall>c' \<in> set cs. area_of s c' \<le> m0) \<and> (r, m) = (b0, m0)"
      with False show ?thesis by simp
    next
      assume "m0 < m \<and> m = area_of s r
       \<and> (\<exists>earlier later. cs = earlier @ r # later
             \<and> (\<forall>c \<in> set earlier. area_of s c < m) \<and> (\<forall>c \<in> set later. area_of s c \<le> m))"
      then obtain earlier later where lt: "m0 < m" and m: "m = area_of s r"
        and dec: "cs = earlier @ r # later"
        and e: "\<forall>c \<in> set earlier. area_of s c < m" and l: "\<forall>c \<in> set later. area_of s c \<le> m"
        by blast
      have "c # cs = (c # earlier) @ r # later" by (simp add: dec)
      moreover have "\<forall>c' \<in> set (c # earlier). area_of s c' < m" using False lt e by simp
      ultimately show ?thesis using lt m l by blast
    qed
  qed
qed

text \<open>
  Claim C5. \<^verbatim>\<open>predictOpponentMove\<close> goes through the four neighbours of the opponent's
  head in the order north, east, south, west. It returns the head unchanged when no
  passable neighbour has a positive area, in particular when no neighbour is passable.
  Otherwise it returns the passable neighbour of largest area, the earliest one among
  equals: the passable neighbours before it have strictly smaller areas.
\<close>

theorem predictOpponentMove_first_largest:
  "\<exists>bestMove. predictOpponentMove b opponentHead = Inr bestMove
     \<and> ((\<forall>c \<in> set (filter (passable (state b)) (neighbours opponentHead)).
            area_of (state b) c \<le> 0) \<longrightarrow> bestMove = opponentHead)
     \<and> (filter (passable (state b)) (neighbours opponentHead) \<noteq> [] \<longrightarrow>
          (\<exists>earlier later.
             filter (passable (state b)) (neighbours opponentHead) = earlier @ bestMove # later
             \<and> (\<forall>c \<in> set earlier. area_of (state b) c < area_of (state b) bestMove)
             \<and> (\<forall>c \<in> set later. area_of (state b) c \<le> area_of (state b) bestMove)))"
proof -
  let ?cs = "filter (passable (state b)) (neighbours opponentHead)"
  obtain r m where f: "fold (keep_larger (state b)) ?cs (opponentHead, 0) = (r, m)"
    by (cases "fold (keep_larger (state b)) ?cs (opponentHead, 0)") auto
  have res: "predictOpponentMove b opponentHead = Inr r"
    by (simp add: predictOpponentMove_eq f)
  note alt = fold_keep_larger [OF f]
  have one: "r = opponentHead" if "\<forall>c \<in> set ?cs. area_of (state b) c \<le> 0"
    using alt that by fastforce
  have two: "\<exists>earlier later. ?cs = earlier @ r # later
             \<and> (\<forall>c \<in> set earlier. area_of (state b) c < area_of (state b) r)
             \<and> (\<forall>c \<in> set later. area_of (state b) c \<le> area_of (state b) r)"
    if ne: "?cs \<noteq> []"
  proof -
    from ne obtain c where c: "c \<in> set ?cs" by (cases ?cs) auto
    then have pos: "0 < area_of (state b) c" by (simp add: area_of_passable_pos)
    have "\<not> (\<forall>c \<in> set ?cs. area_of (state b) c \<le> 0)"
    proof
      assume "\<forall>c \<in> set ?cs. area_of (state b) c \<le> 0"
      with c have "area_of (state b) c \<le> 0" by blast
      with pos show False by simp
    qed
    with alt show ?thesis by blast
  qed
  from res one two show ?thesis by blast
qed

text \<open>
  Beyond that range the scores wrap around: for the bot in the middle of the empty 3 by 3
  grid and the target \<open>(2147483647, 12)\<close>, north and west score \<open>2 ^ 31 - 1\<close> although
  east and south are nearer to the target.
\<close>

lemma aggression_overflow_example:
  "aggressive_moves centre_bot (2147483647, 12) directions
     = Inr [(north, 2147483647), (east, - 2147483647), (south, - 2147483647), (west, 2147483647)]"
  by code_simp

lemma aggression_overflow_decision:
  "decideAggressiveMove (std_sort reversing_sort) centre_bot (2147483647, 12) (2147483647, 12)
     = Inr north"
  by (simp add: decideAggressiveMove_def aggression_overflow_example findBestMove_def
        std_sort_def insertion_sort_def insert_candidate_def)

lemma aggression_overflow_unfit: "\<not> fits_int32 centre_bot (2147483647, 12)"
proof
  assume "fits_int32 centre_bot (2147483647, 12)"
  moreover have "north \<in> set directions" by (simp add: directions_def)
  moreover have "passable (state centre_bot) (new_pos_of centre_bot north)"
    by (simp add: passable_def new_pos_of_def centre_bot_def bot_at_def empty_grid_def)
  ultimately have "manhattan (new_pos_of centre_bot north) (2147483647, 12) < 2147483648"
    unfolding fits_int32_def by blast
  then show False
    by (simp add: manhattan_def new_pos_of_def centre_bot_def bot_at_def)
qed

theorem aggression_score_witness:
  "fits_int32 (bot_at ''me'' (0, 0) duel) (2, 1)
   \<and> fst (findNearestOpponentHead (bot_at ''me'' (0, 0) duel)) \<noteq> (-1, -1)
   \<and> predictOpponentMove (bot_at ''me'' (0, 0) duel)
         (fst (findNearestOpponentHead (bot_at ''me'' (0, 0) duel))) = Inr (2, 1)
   \<and> exact_candidates (bot_at ''me'' (0, 0) duel) (2, 1) = [(east, 5), (south, 5)]
   \<and> decideMove stable_sort (bot_at ''me'' (0, 0) duel)
       = Inr (findBestMove stable_sort (exact_candidates (bot_at ''me'' (0, 0) duel) (2, 1)))"
proof -
  let ?b = "bot_at ''me'' (0, 0) duel"
  have fit: "fits_int32 ?b (2, 1)"
    by (rule fits_int32_coordinates) (simp_all add: bot_at_def duel_def grid_with_def)
  have fn: "fst (findNearestOpponentHead ?b) = (2, 2)"
    by (simp add: duel_eval1)
  then have h: "fst (findNearestOpponentHead ?b) \<noteq> (-1, -1)" by simp
  have p: "predictOpponentMove ?b (fst (findNearestOpponentHead ?b)) = Inr (2, 1)"
    by (simp only: fn duel_eval2)
  note th = aggression_score [of ?b "(2, 1)" stable_sort "(2, 2)"]
  from th fit have "aggressive_moves ?b (2, 1) directions = Inr (exact_candidates ?b (2, 1))"
    by blast
  with duel_eval3 have ex: "exact_candidates ?b (2, 1) = [(east, 5), (south, 5)]" by simp
  from th h p fit
  have "decideMove stable_sort ?b = Inr (findBestMove stable_sort (exact_candidates ?b (2, 1)))"
    by auto
  with fit h p ex show ?thesis by blast
qed

theorem predictOpponentMove_first_largest_witness:
  "filter (passable (state (bot_at ''me'' (0, 0) (empty_grid 1 1 [])))) (neighbours (0, 0)) = []
   \<and> predictOpponentMove (bot_at ''me'' (0, 0) (empty_grid 1 1 [])) (0, 0) = Inr (0, 0)
   \<and> filter (passable (state (bot_at ''me'' (0, 0) duel))) (neighbours (2, 2)) \<noteq> []
   \<and> predictOpponentMove (bot_at ''me'' (0, 0) duel) (2, 2) = Inr (2, 1)
   \<and> (\<exists>earlier later.
         filter (passable (state (bot_at ''me'' (0, 0) duel))) (neighbours (2, 2))
           = earlier @ (2, 1) # later
         \<and> (\<forall>c \<in> set earlier. area_of (state (bot_at ''me'' (0, 0) duel)) c
                                  < area_of (state (bot_at ''me'' (0, 0) duel)) (2, 1))
         \<and> (\<forall>c \<in> set later. area_of (state (bot_at ''me'' (0, 0) duel)) c
                                  \<le> area_of (state (bot_at ''me'' (0, 0) duel)) (2, 1)))"
proof -
  let ?b1 = "bot_at ''me'' (0, 0) (empty_grid 1 1 [])"
  let ?b2 = "bot_at ''me'' (0, 0) duel"
  have none: "filter (passable (state ?b1)) (neighbours (0, 0)) = []"
    by (simp add: neighbours_def directions_def passable_def bot_at_def empty_grid_def)
  then have h1: "\<forall>c \<in> set (filter (passable (state ?b1)) (neighbours (0, 0))).
                  area_of (state ?b1) c \<le> 0"
    by simp
  from predictOpponentMove_first_largest [of ?b1 "(0, 0)"] h1
  have r1: "predictOpponentMove ?b1 (0, 0) = Inr (0, 0)" by auto
  have h2: "filter (passable (state ?b2)) (neighbours (2, 2)) \<noteq> []"
    by (simp add: neighbours_def directions_def passable_def bot_at_def duel_def grid_with_def)
  from predictOpponentMove_first_largest [of ?b2 "(2, 2)"] h2 duel_eval2
  have r2: "\<exists>earlier later.
         filter (passable (state ?b2)) (neighbours (2, 2)) = earlier @ (2, 1) # later
         \<and> (\<forall>c \<in> set earlier. area_of (state ?b2) c < area_of (state ?b2) (2, 1))
         \<and> (\<forall>c \<in> set later. area_of (state ?b2) c \<le> area_of (state ?b2) (2, 1))"
    by auto
  from none r1 h2 duel_eval2 r2 show ?thesis by blast
qed

section \<open>The decision driver\<close>

lemma receiveGameState_no_match:
  "find (\<lambda>player. Player.name player = BotClient.name b) (players snapshot) = None \<Longrightarrow>
   receiveGameState b snapshot = b\<lparr>state := snapshot\<rparr>"
  by (simp add: receiveGameState_def)

lemma decideMove_no_error: "\<exists>move. decideMove srt b = Inr move"
  by (simp add: decideMove_def findSafeDirection_def decideAggressiveMove_def safe_moves_eq
        aggressive_moves_eq predictOpponentMove_eq split: prod.splits)

text \<open>
  Claim C2, as amended. For every tick in which the name of the controlled player has no
  exact match among the players of the snapshot, \<^verbatim>\<open>receiveGameState\<close> stores the
  snapshot and leaves \<open>my_player\<close> as it was; no error is reported, and the tick decides
  and sends a move computed on the new snapshot from the position that \<open>my_player\<close>
  retained.
\<close>

theorem identity_not_found_keeps_position:
  assumes "find (\<lambda>player. Player.name player = BotClient.name b) (players snapshot) = None"
  shows "receiveGameState b snapshot = b\<lparr>state := snapshot\<rparr>
    \<and> my_player (receiveGameState b snapshot) = my_player b
    \<and> (\<exists>move. decideMove srt (b\<lparr>state := snapshot\<rparr>) = Inr move
          \<and> run_tick srt getDirectionValue b snapshot
              = Inr (b\<lparr>state := snapshot, previousDirection := getDirectionValue move\<rparr>, move))"
proof -
  have r: "receiveGameState b snapshot = b\<lparr>state := snapshot\<rparr>"
    using assms by (rule receiveGameState_no_match)
  obtain move where m: "decideMove srt (b\<lparr>state := snapshot\<rparr>) = Inr move"
    using decideMove_no_error by blast
  have "run_tick srt getDirectionValue b snapshot
          = Inr (b\<lparr>state := snapshot, previousDirection := getDirectionValue move\<rparr>, move)"
    by (simp add: run_tick_def sendMove_def r m)
  with r m show ?thesis by simp
qed

lemma stale_decide: "decideMove stable_sort ((bot_at ''me'' (0, 0) duel)\<lparr>state := rival_only\<rparr>) = Inr east"
  by code_simp

lemma stale_no_match:
  "find (\<lambda>player. Player.name player = BotClient.name (bot_at ''me'' (0, 0) duel))
     (players rival_only) = None"
  by (simp add: bot_at_def rival_only_def grid_with_def)

text \<open>
  Claim C2 as stated fails: the snapshot \<open>rival_only\<close> does not list the bot, and the
  tick still returns a move, east, decided from the position \<open>(0, 0)\<close> recorded before.
\<close>

theorem identity_not_found_counterexample:
  "find (\<lambda>player. Player.name player = BotClient.name (bot_at ''me'' (0, 0) duel))
     (players rival_only) = None
   \<and> position (my_player (receiveGameState (bot_at ''me'' (0, 0) duel) rival_only)) = (0, 0)
   \<and> run_tick stable_sort enum_code (bot_at ''me'' (0, 0) duel) rival_only
       = Inr ((bot_at ''me'' (0, 0) duel)\<lparr>state := rival_only, previousDirection := 1\<rparr>, east)"
proof -
  have r: "receiveGameState (bot_at ''me'' (0, 0) duel) rival_only
             = (bot_at ''me'' (0, 0) duel)\<lparr>state := rival_only\<rparr>"
    using stale_no_match by (simp add: receiveGameState_def)
  have "position (my_player (receiveGameState (bot_at ''me'' (0, 0) duel) rival_only)) = (0, 0)"
    unfolding r by (simp add: bot_at_def)
  moreover have "run_tick stable_sort enum_code (bot_at ''me'' (0, 0) duel) rival_only
       = Inr ((bot_at ''me'' (0, 0) duel)\<lparr>state := rival_only, previousDirection := 1\<rparr>, east)"
    by (simp add: run_tick_def sendMove_def r stale_decide)
  ultimately show ?thesis using stale_no_match by blast
qed

theorem identity_not_found_keeps_position_witness:
  "find (\<lambda>player. Player.name player = BotClient.name (bot_at ''me'' (0, 0) duel))
     (players rival_only) = None
   \<and> my_player (receiveGameState (bot_at ''me'' (0, 0) duel) rival_only)
       = my_player (bot_at ''me'' (0, 0) duel)
   \<and> (\<exists>move. run_tick stable_sort enum_code (bot_at ''me'' (0, 0) duel) rival_only
                = Inr ((bot_at ''me'' (0, 0) duel)
                         \<lparr>state := rival_only, previousDirection := enum_code move\<rparr>, move))"
  using identity_not_found_keeps_position [OF stale_no_match, of stable_sort enum_code] stale_no_match
  by blast

lemma nearest_player_minimal:
  "nearest_player me best ps \<in> set (best # ps)
   \<and> (\<forall>q \<in> set (best # ps).
         manhattan (position (nearest_player me best ps)) me \<le> manhattan (position q) me)"
proof (induction ps arbitrary: best)
  case Nil
  then show ?case by simp
next
  case (Cons p ps)
  show ?case
  proof (cases "manhattan (position p) me < manhattan (position best) me")
    case True
    with Cons.IH [of p] show ?thesis by fastforce
  next
    case False
    with Cons.IH [of best] show ?thesis by fastforce
  qed
qed

lemma manhattan_zero: "manhattan p q \<le> 0 \<Longrightarrow> p = q"
  by (cases p; cases q) (simp add: manhattan_def, arith)

lemma manhattan_self: "manhattan p p = 0"
  by (simp add: manhattan_def)

lemma nearest_head_at_distance_zero:
  assumes "q \<in> set (players (state b))" "Player.name q \<noteq> BotClient.name b"
    "position q = position (my_player b)"
  shows "fst (findNearestOpponentHead b) = position (my_player b)"
proof -
  let ?others = "filter (\<lambda>p. Player.name p \<noteq> BotClient.name b) (players (state b))"
  from assms have q: "q \<in> set ?others" by simp
  then obtain p ps where o: "?others = p # ps" by (cases ?others) auto
  let ?r = "nearest_player (position (my_player b)) p ps"
  have "manhattan (position ?r) (position (my_player b))
          \<le> manhattan (position q) (position (my_player b))"
    using nearest_player_minimal [of "position (my_player b)" p ps] q o by auto
  then have "position ?r = position (my_player b)"
    using assms(3) by (simp add: manhattan_self manhattan_zero)
  then show ?thesis
    by (simp add: findNearestOpponentHead_def o)
qed

lemma decideMove_depends:
  assumes "state b1 = state b2" "position (my_player b1) = position (my_player b2)"
    "fst (findNearestOpponentHead b1) = fst (findNearestOpponentHead b2)"
  shows "decideMove srt b1 = decideMove srt b2"
proof -
  have n: "new_pos_of b1 = new_pos_of b2"
    using assms(2) by (simp add: new_pos_of_def fun_eq_iff)
  obtain h1 o1 where f1: "findNearestOpponentHead b1 = (h1, o1)"
    by (cases "findNearestOpponentHead b1") auto
  obtain h2 o2 where f2: "findNearestOpponentHead b2 = (h2, o2)"
    by (cases "findNearestOpponentHead b2") auto
  from assms(3) have h: "h1 = h2" by (simp add: f1 f2)
  show ?thesis
    by (simp add: decideMove_def f1 f2 h findSafeDirection_def decideAggressiveMove_def
          safe_moves_eq aggressive_moves_eq predictOpponentMove_eq n assms(1))
qed

lemma findNearestOpponentHead_depends:
  assumes "BotClient.name b1 = BotClient.name b2" "state b1 = state b2"
    "position (my_player b1) = position (my_player b2)"
  shows "findNearestOpponentHead b1 = findNearestOpponentHead b2"
  unfolding findNearestOpponentHead_def assms by (rule refl)

text \<open>
  Claim C10. The decided direction is a function of the current snapshot and the position
  of the controlled player: two bots that hold the same snapshot and the same position,
  and carry the same name or have both resolved their identity in that snapshot, decide
  and send the same direction, whatever their generator state, recorded previous
  direction and fallback counter are.
\<close>

theorem decision_ignores_history:
  "(BotClient.name b1 = BotClient.name b2 \<or> (resolved b1 \<and> resolved b2))
   \<and> state b1 = state b2 \<and> position (my_player b1) = position (my_player b2)
   \<longrightarrow> decideMove srt b1 = decideMove srt b2
       \<and> map_sum id snd (sendMove srt getDirectionValue b1)
           = map_sum id snd (sendMove srt getDirectionValue b2)"
proof
  assume h: "(BotClient.name b1 = BotClient.name b2 \<or> (resolved b1 \<and> resolved b2))
   \<and> state b1 = state b2 \<and> position (my_player b1) = position (my_player b2)"
  then have s: "state b1 = state b2" and p: "position (my_player b1) = position (my_player b2)"
    by auto
  have "fst (findNearestOpponentHead b1) = fst (findNearestOpponentHead b2)"
  proof (cases "BotClient.name b1 = BotClient.name b2")
    case True
    then show ?thesis using findNearestOpponentHead_depends [OF True s p] by simp
  next
    case False
    with h have r1: "resolved b1" and r2: "resolved b2" by auto
    from r1 have m1: "my_player b1 \<in> set (players (state b1))"
      and n1: "Player.name (my_player b1) = BotClient.name b1"
      by (auto simp: resolved_def find_Some_iff)
    from r2 have m2: "my_player b2 \<in> set (players (state b2))"
      and n2: "Player.name (my_player b2) = BotClient.name b2"
      by (auto simp: resolved_def find_Some_iff)
    have "fst (findNearestOpponentHead b1) = position (my_player b1)"
      using nearest_head_at_distance_zero [of "my_player b2" b1] m2 n2 False s p by simp
    moreover have "fst (findNearestOpponentHead b2) = position (my_player b2)"
      using nearest_head_at_distance_zero [of "my_player b1" b2] m1 n1 False s p by simp
    ultimately show ?thesis using p by simp
  qed
  with s p have d: "decideMove srt b1 = decideMove srt b2" by (rule decideMove_depends)
  then show "decideMove srt b1 = decideMove srt b2
       \<and> map_sum id snd (sendMove srt getDirectionValue b1)
           = map_sum id snd (sendMove srt getDirectionValue b2)"
    by (simp add: sendMove_def split: sum.splits)
qed

theorem decision_ignores_history_witness:
  "BotClient.name (bot_at ''me'' (0, 0) duel)
     = BotClient.name ((bot_at ''me'' (0, 0) duel)\<lparr>rng := 42, previousDirection := 2, fallbackCounter := 7\<rparr>)
   \<and> state (bot_at ''me'' (0, 0) duel)
     = state ((bot_at ''me'' (0, 0) duel)\<lparr>rng := 42, previousDirection := 2, fallbackCounter := 7\<rparr>)
   \<and> position (my_player (bot_at ''me'' (0, 0) duel))
     = position (my_player ((bot_at ''me'' (0, 0) duel)\<lparr>rng := 42, previousDirection := 2, fallbackCounter := 7\<rparr>))
   \<and> decideMove stable_sort ((bot_at ''me'' (0, 0) duel)\<lparr>rng := 42, previousDirection := 2, fallbackCounter := 7\<rparr>)
     = Inr east
   \<and> resolved (bot_at ''me'' (1, 1) shared_cell) \<and> resolved (bot_at ''rival'' (1, 1) shared_cell)
   \<and> decideMove stable_sort (bot_at ''me'' (1, 1) shared_cell)
     = decideMove stable_sort (bot_at ''rival'' (1, 1) shared_cell)"
proof -
  let ?b1 = "bot_at ''me'' (0, 0) duel"
  let ?b2 = "(bot_at ''me'' (0, 0) duel)\<lparr>rng := 42, previousDirection := 2, fallbackCounter := 7\<rparr>"
  let ?b3 = "bot_at ''me'' (1, 1) shared_cell"
  let ?b4 = "bot_at ''rival'' (1, 1) shared_cell"
  have a: "BotClient.name ?b1 = BotClient.name ?b2" by simp
  have b: "state ?b1 = state ?b2" by simp
  have c: "position (my_player ?b1) = position (my_player ?b2)" by simp
  from decision_ignores_history [of ?b1 ?b2 stable_sort enum_code] a b c
  have "decideMove stable_sort ?b1 = decideMove stable_sort ?b2" by blast
  with duel_eval4 have d: "decideMove stable_sort ?b2 = Inr east" by simp
  have r3: "resolved ?b3" by (simp add: resolved_def bot_at_def shared_cell_def grid_with_def)
  have r4: "resolved ?b4" by (simp add: resolved_def bot_at_def shared_cell_def grid_with_def)
  have s: "state ?b3 = state ?b4" by (simp add: bot_at_def)
  have p: "position (my_player ?b3) = position (my_player ?b4)" by (simp add: bot_at_def)
  from decision_ignores_history [of ?b3 ?b4 stable_sort enum_code] r3 r4 s p
  have e: "decideMove stable_sort ?b3 = decideMove stable_sort ?b4" by blast
  from a b c d r3 r4 e show ?thesis by blast
qed

end
